theory Spec2Isabelle
  imports Main
begin

section \<open>VividTodo: the Todo model and the TodoStore of app.js\<close>

text \<open>
  The store of \<^verbatim>\<open>app.js\<close> keeps an array of \<^verbatim>\<open>Todo\<close> objects and writes it, as JSON,
  to one \<^verbatim>\<open>localStorage\<close> slot. JavaScript is dynamically typed: the fields of a
  \<^verbatim>\<open>Todo\<close> hold whatever the caller or the stored JSON supplies, so the fields are
  JavaScript values here, and the tests the code makes on them (\<^verbatim>\<open>!t.completed\<close>,
  \<^verbatim>\<open>if (raw)\<close>) are the language's truthiness tests.
\<close>

subsection \<open>JavaScript values\<close>

text \<open>
  Numbers are kept as integers (no claim depends on a fractional number). The strict
  equality \<^verbatim>\<open>===\<close> of the source is HOL equality: on primitive values that is what
  JavaScript computes; arrays and objects are compared by identity in JavaScript, which
  a value model does not track (the store itself only ever issues string ids).
\<close>

datatype jsval =
    JUndefined
  | JNull
  | JBool bool
  | JNum int
  | JStr string
  | JArr "jsval list"
  | JObj "(string \<times> jsval) list"

fun truthy :: "jsval \<Rightarrow> bool" where
  "truthy JUndefined = False"
| "truthy JNull = False"
| "truthy (JBool b) = b"
| "truthy (JNum n) = (n \<noteq> 0)"
| "truthy (JStr s) = (s \<noteq> [])"
| "truthy (JArr vs) = True"
| "truthy (JObj ps) = True"

datatype error = SyntaxError | TypeError

text \<open>
  Reading a property: \<^verbatim>\<open>item.id\<close>. On \<^verbatim>\<open>null\<close> and \<^verbatim>\<open>undefined\<close> it throws a
  TypeError; on an object it is the value bound to the key (the last binding wins) or
  \<^verbatim>\<open>undefined\<close>; on every other value the three keys the store reads (\<^verbatim>\<open>id\<close>,
  \<^verbatim>\<open>text\<close>, \<^verbatim>\<open>completed\<close>) are not defined, so the result is \<^verbatim>\<open>undefined\<close>.
\<close>

fun get_prop :: "jsval \<Rightarrow> string \<Rightarrow> error + jsval" where
  "get_prop JUndefined k = Inl TypeError"
| "get_prop JNull k = Inl TypeError"
| "get_prop (JObj ps) k = Inr (case map_of (rev ps) k of None \<Rightarrow> JUndefined | Some v \<Rightarrow> v)"
| "get_prop v k = Inr JUndefined"

subsection \<open>The Todo model\<close>

record todo =
  id_of :: jsval
  text_of :: jsval
  completed :: jsval

text \<open>
  \<^verbatim>\<open>constructor(id, text, completed = false)\<close>: the default applies when the argument
  is missing or \<^verbatim>\<open>undefined\<close>.
\<close>

definition Todo :: "jsval \<Rightarrow> jsval \<Rightarrow> jsval \<Rightarrow> todo" where
  "Todo i t c =
     \<lparr>id_of = i, text_of = t, completed = (if c = JUndefined then JBool False else c)\<rparr>"

definition toggle :: "todo \<Rightarrow> todo" where
  "toggle t = t\<lparr>completed := JBool (\<not> truthy (completed t))\<rparr>"

definition setText :: "jsval \<Rightarrow> todo \<Rightarrow> todo" where
  "setText newText t = t\<lparr>text_of := newText\<rparr>"

subsection \<open>Array helpers\<close>

text \<open>\<^verbatim>\<open>Array.prototype.findIndex\<close>; \<open>None\<close> stands for the result \<^verbatim>\<open>-1\<close>.\<close>

fun findIndex :: "('a \<Rightarrow> bool) \<Rightarrow> 'a list \<Rightarrow> nat option" where
  "findIndex P [] = None"
| "findIndex P (x # xs) = (if P x then Some 0 else map_option Suc (findIndex P xs))"

text \<open>
  \<^verbatim>\<open>Array.prototype.find\<close> is \<^const>\<open>List.find\<close>. It returns a reference to the first
  element that satisfies the predicate; a method called on that reference changes the
  element inside the array, which is \<open>update_found\<close>.
\<close>

fun update_found :: "('a \<Rightarrow> bool) \<Rightarrow> ('a \<Rightarrow> 'a) \<Rightarrow> 'a list \<Rightarrow> 'a list" where
  "update_found P f [] = []"
| "update_found P f (x # xs) = (if P x then f x # xs else x # update_found P f xs)"

text \<open>\<^verbatim>\<open>xs.splice(i, 1)\<close> leaves \<open>splice_out i xs\<close>; \<^verbatim>\<open>xs.splice(i, 0, x)\<close> leaves
  \<open>splice_in i x xs\<close> (a start past the end is clamped to the length, as \<open>take\<close> and
  \<open>drop\<close> do).\<close>

definition splice_out :: "nat \<Rightarrow> 'a list \<Rightarrow> 'a list" where
  "splice_out i xs = take i xs @ drop (Suc i) xs"

definition splice_in :: "nat \<Rightarrow> 'a \<Rightarrow> 'a list \<Rightarrow> 'a list" where
  "splice_in i x xs = take i xs @ x # drop i xs"

subsection \<open>The store and its persistence\<close>

text \<open>
  The state is the array \<^verbatim>\<open>_todos\<close> and the content of the \<^verbatim>\<open>localStorage\<close> slot
  under \<^verbatim>\<open>_storageKey\<close> (\<open>None\<close>: the key is absent, \<^verbatim>\<open>getItem\<close> returns
  \<^verbatim>\<open>null\<close>). \<^verbatim>\<open>JSON.parse\<close> and \<^verbatim>\<open>JSON.stringify\<close> belong to the host, not to the
  repository: every operation takes them as parameters \<open>parse\<close> (\<open>None\<close>: a SyntaxError
  is thrown) and \<open>stringify\<close>. The slot is taken to accept every write.
\<close>

record store =
  todos :: "todo list"
  storage :: "string option"

definition plain :: "todo \<Rightarrow> jsval" where
  "plain t = JObj [(''id'', id_of t), (''text'', text_of t), (''completed'', completed t)]"

definition serialize :: "todo list \<Rightarrow> jsval" where
  "serialize ts = JArr (map plain ts)"

definition saveToStorage :: "(jsval \<Rightarrow> string) \<Rightarrow> store \<Rightarrow> store" where
  "saveToStorage stringify s = s\<lparr>storage := Some (stringify (serialize (todos s)))\<rparr>"

text \<open>The arrow function of \<^verbatim>\<open>data.map\<close> in \<^verbatim>\<open>loadFromStorage\<close>.\<close>

definition rehydrate_item :: "jsval \<Rightarrow> error + todo" where
  "rehydrate_item item =
     (case get_prop item ''id'' of
        Inl e \<Rightarrow> Inl e
      | Inr i \<Rightarrow>
          (case get_prop item ''text'' of
             Inl e \<Rightarrow> Inl e
           | Inr t \<Rightarrow>
               (case get_prop item ''completed'' of
                  Inl e \<Rightarrow> Inl e
                | Inr c \<Rightarrow> Inr (Todo i t c))))"

fun rehydrate_all :: "jsval list \<Rightarrow> error + todo list" where
  "rehydrate_all [] = Inr []"
| "rehydrate_all (item # items) =
     (case rehydrate_item item of
        Inl e \<Rightarrow> Inl e
      | Inr t \<Rightarrow>
          (case rehydrate_all items of
             Inl e \<Rightarrow> Inl e
           | Inr ts \<Rightarrow> Inr (t # ts)))"

text \<open>
  The body of the \<^verbatim>\<open>try\<close> block: \<^verbatim>\<open>JSON.parse\<close> throws a SyntaxError on text that is
  not JSON, and \<^verbatim>\<open>data.map\<close> throws a TypeError when \<open>data\<close> is not an array (no
  other JSON value has a method \<^verbatim>\<open>map\<close>).
\<close>

definition try_rehydrate :: "(string \<Rightarrow> jsval option) \<Rightarrow> string \<Rightarrow> error + todo list" where
  "try_rehydrate parse raw =
     (case parse raw of
        None \<Rightarrow> Inl SyntaxError
      | Some data \<Rightarrow> (case data of JArr items \<Rightarrow> rehydrate_all items | _ \<Rightarrow> Inl TypeError))"

definition loadFromStorage :: "(string \<Rightarrow> jsval option) \<Rightarrow> store \<Rightarrow> store" where
  "loadFromStorage parse s =
     (case storage s of
        None \<Rightarrow> s\<lparr>todos := []\<rparr>
      | Some raw \<Rightarrow>
          if raw \<noteq> [] then
            (case try_rehydrate parse raw of
               Inr ts \<Rightarrow> s\<lparr>todos := ts\<rparr>
             | Inl e \<Rightarrow> s\<lparr>todos := []\<rparr>)
          else s\<lparr>todos := []\<rparr>)"

subsection \<open>CRUD operations\<close>

text \<open>\<^verbatim>\<open>Number.prototype.toString()\<close> of an integer: its decimal digits.\<close>

function string_of_nat :: "nat \<Rightarrow> string" where
  "string_of_nat n =
     (if n < 10 then [''0123456789'' ! n]
      else string_of_nat (n div 10) @ [''0123456789'' ! (n mod 10)])"
  by pat_completeness auto
termination
  by (relation "measure (\<lambda>n. n)") auto

declare string_of_nat.simps [simp del]

definition string_of_int :: "int \<Rightarrow> string" where
  "string_of_int i = (if i < 0 then CHR ''-'' # string_of_nat (nat (- i)) else string_of_nat (nat i))"

text \<open>
  \<^verbatim>\<open>addTodo\<close> reads the clock and the random generator: \<open>now\<close> is the value of
  \<^verbatim>\<open>Date.now()\<close> and \<open>rnd\<close> the text \<^verbatim>\<open>Math.random().toString(36)\<close>, of which
  \<^verbatim>\<open>substr(2, 5)\<close> keeps at most five characters from position 2.
\<close>

definition new_id :: "int \<Rightarrow> string \<Rightarrow> jsval" where
  "new_id now rnd = JStr (string_of_int now @ take 5 (drop 2 rnd))"

definition addTodo :: "(jsval \<Rightarrow> string) \<Rightarrow> int \<Rightarrow> string \<Rightarrow> jsval \<Rightarrow> store \<Rightarrow> todo \<times> store" where
  "addTodo stringify now rnd txt s =
     (let todo = Todo (new_id now rnd) txt JUndefined
      in (todo, saveToStorage stringify (s\<lparr>todos := todos s @ [todo]\<rparr>)))"

definition editTodo :: "(jsval \<Rightarrow> string) \<Rightarrow> jsval \<Rightarrow> jsval \<Rightarrow> store \<Rightarrow> store" where
  "editTodo stringify i newText s =
     (case find (\<lambda>t. id_of t = i) (todos s) of
        None \<Rightarrow> s
      | Some todo \<Rightarrow>
          saveToStorage stringify
            (s\<lparr>todos := update_found (\<lambda>t. id_of t = i) (setText newText) (todos s)\<rparr>))"

definition toggleTodo :: "(jsval \<Rightarrow> string) \<Rightarrow> jsval \<Rightarrow> store \<Rightarrow> store" where
  "toggleTodo stringify i s =
     (case find (\<lambda>t. id_of t = i) (todos s) of
        None \<Rightarrow> s
      | Some todo \<Rightarrow>
          saveToStorage stringify
            (s\<lparr>todos := update_found (\<lambda>t. id_of t = i) toggle (todos s)\<rparr>))"

definition deleteTodo :: "(jsval \<Rightarrow> string) \<Rightarrow> jsval \<Rightarrow> store \<Rightarrow> store" where
  "deleteTodo stringify i s =
     (case findIndex (\<lambda>t. id_of t = i) (todos s) of
        None \<Rightarrow> s
      | Some index \<Rightarrow> saveToStorage stringify (s\<lparr>todos := splice_out index (todos s)\<rparr>))"

definition clearCompleted :: "(jsval \<Rightarrow> string) \<Rightarrow> store \<Rightarrow> store" where
  "clearCompleted stringify s =
     saveToStorage stringify (s\<lparr>todos := filter (\<lambda>t. \<not> truthy (completed t)) (todos s)\<rparr>)"

subsection \<open>Filtering and re-ordering\<close>

text \<open>
  \<^verbatim>\<open>filterTodos\<close> returns a new array and assigns nothing: the result is paired with
  the store it leaves behind.
\<close>

definition filterTodos :: "jsval \<Rightarrow> store \<Rightarrow> todo list \<times> store" where
  "filterTodos mode s =
     (if mode = JStr ''active'' then (filter (\<lambda>t. \<not> truthy (completed t)) (todos s), s)
      else if mode = JStr ''completed'' then (filter (\<lambda>t. truthy (completed t)) (todos s), s)
      else (todos s, s))"

definition reorderTodos :: "(jsval \<Rightarrow> string) \<Rightarrow> jsval \<Rightarrow> jsval \<Rightarrow> store \<Rightarrow> store" where
  "reorderTodos stringify draggedId targetId s =
     (if draggedId = targetId then s
      else
        (case findIndex (\<lambda>t. id_of t = draggedId) (todos s) of
           None \<Rightarrow> s
         | Some draggedIdx \<Rightarrow>
             (case findIndex (\<lambda>t. id_of t = targetId) (todos s) of
                None \<Rightarrow> s
              | Some targetIdx \<Rightarrow>
                  (let draggedItem = todos s ! draggedIdx;
                       removed = splice_out draggedIdx (todos s);
                       insertIdx = (if draggedIdx < targetIdx then targetIdx - 1 else targetIdx)
                   in saveToStorage stringify
                        (s\<lparr>todos := splice_in insertIdx draggedItem removed\<rparr>)))))"

subsection \<open>A reference JSON codec\<close>

text \<open>
  Concrete runs of the store need concrete host functions. \<open>json_stringify\<close> prints
  a value the way \<^verbatim>\<open>JSON.stringify\<close> does (no white space; \<^verbatim>\<open>undefined\<close> is dropped
  from an object and printed as \<^verbatim>\<open>null\<close> in an array; at the top level it is the text
  \<^verbatim>\<open>undefined\<close> that \<^verbatim>\<open>setItem\<close> would store). \<open>json_parse\<close> reads the JSON grammar
  with integer numbers and with escapes of characters below 256, by recursive descent
  with the length of the text as its recursion bound; \<open>None\<close> is the SyntaxError.
  The persistence round trip is stated for this pair of functions.
\<close>

definition dquote :: char where "dquote = CHR 0x22"
definition bslash :: char where "bslash = CHR 0x5C"

definition escape_char :: "char \<Rightarrow> string" where
  "escape_char c =
     (if c = dquote then [bslash, dquote]
      else if c = bslash then [bslash, bslash]
      else if c = CHR 0x08 then [bslash, CHR ''b'']
      else if c = CHR 0x0C then [bslash, CHR ''f'']
      else if c = CHR 0x0A then [bslash, CHR ''n'']
      else if c = CHR 0x0D then [bslash, CHR ''r'']
      else if c = CHR 0x09 then [bslash, CHR ''t'']
      else if of_char c < (32::nat) then
        [bslash, CHR ''u'', CHR ''0'', CHR ''0'',
         ''0123456789abcdef'' ! (of_char c div 16), ''0123456789abcdef'' ! (of_char c mod 16)]
      else [c])"

definition quote :: "string \<Rightarrow> string" where
  "quote s = dquote # concat (map escape_char s) @ [dquote]"

fun commas :: "string list \<Rightarrow> string" where
  "commas [] = []"
| "commas [x] = x"
| "commas (x # y # ys) = x @ CHR '','' # commas (y # ys)"

fun json_stringify :: "jsval \<Rightarrow> string"
  and stringify_elements :: "jsval list \<Rightarrow> string list"
  and stringify_members :: "(string \<times> jsval) list \<Rightarrow> string list" where
  "json_stringify JUndefined = ''undefined''"
| "json_stringify JNull = ''null''"
| "json_stringify (JBool b) = (if b then ''true'' else ''false'')"
| "json_stringify (JNum n) = string_of_int n"
| "json_stringify (JStr s) = quote s"
| "json_stringify (JArr vs) = ''['' @ commas (stringify_elements vs) @ '']''"
| "json_stringify (JObj ps) = ''{'' @ commas (stringify_members ps) @ ''}''"
| "stringify_elements [] = []"
| "stringify_elements (v # vs) =
     (if v = JUndefined then ''null'' else json_stringify v) # stringify_elements vs"
| "stringify_members [] = []"
| "stringify_members ((k, v) # ps) =
     (if v = JUndefined then stringify_members ps
      else (quote k @ CHR '':'' # json_stringify v) # stringify_members ps)"

definition is_ws :: "char \<Rightarrow> bool" where
  "is_ws c = (c = CHR '' '' \<or> c = CHR 0x09 \<or> c = CHR 0x0A \<or> c = CHR 0x0D)"

definition skip_ws :: "string \<Rightarrow> string" where
  "skip_ws cs = dropWhile is_ws cs"

definition unescape :: "char \<Rightarrow> char option" where
  "unescape e =
     (if e = dquote \<or> e = bslash \<or> e = CHR ''/'' then Some e
      else if e = CHR ''b'' then Some (CHR 0x08)
      else if e = CHR ''f'' then Some (CHR 0x0C)
      else if e = CHR ''n'' then Some (CHR 0x0A)
      else if e = CHR ''r'' then Some (CHR 0x0D)
      else if e = CHR ''t'' then Some (CHR 0x09)
      else None)"

definition hex_val :: "char \<Rightarrow> nat option" where
  "hex_val c =
     (let n = (of_char c :: nat) in
      if 48 \<le> n \<and> n \<le> 57 then Some (n - 48)
      else if 97 \<le> n \<and> n \<le> 102 then Some (n - 87)
      else if 65 \<le> n \<and> n \<le> 70 then Some (n - 55)
      else None)"

text \<open>The characters of a string literal after its opening quote, up to the closing one.\<close>

fun parse_chars :: "string \<Rightarrow> (string \<times> string) option" where
  "parse_chars [] = None"
| "parse_chars (c # cs) =
     (if c = dquote then Some ([], cs)
      else if c = bslash then
        (case cs of
           [] \<Rightarrow> None
         | e # cs1 \<Rightarrow>
             if e = CHR ''u'' then
               (case cs1 of
                  h1 # h2 # h3 # h4 # cs2 \<Rightarrow>
                    (case (hex_val h1, hex_val h2, hex_val h3, hex_val h4) of
                       (Some a, Some b, Some c, Some d) \<Rightarrow>
                         if a = 0 \<and> b = 0 then
                           map_option (apfst ((#) (char_of (16 * c + d)))) (parse_chars cs2)
                         else None
                     | _ \<Rightarrow> None)
                | _ \<Rightarrow> None)
             else
               (case unescape e of
                  None \<Rightarrow> None
                | Some ch \<Rightarrow> map_option (apfst ((#) ch)) (parse_chars cs1)))
      else if of_char c < (32::nat) then None
      else map_option (apfst ((#) c)) (parse_chars cs))"

definition is_digit :: "char \<Rightarrow> bool" where
  "is_digit c = (48 \<le> (of_char c :: nat) \<and> (of_char c :: nat) \<le> 57)"

definition nat_of_digits :: "string \<Rightarrow> nat" where
  "nat_of_digits ds = foldl (\<lambda>n c. 10 * n + (of_char c - 48)) 0 ds"

text \<open>An integer literal: digits without a leading zero; a fraction or an exponent
  is outside the fragment.\<close>

definition parse_nat :: "string \<Rightarrow> (nat \<times> string) option" where
  "parse_nat cs =
     (let ds = takeWhile is_digit cs; r = dropWhile is_digit cs in
      if ds = [] \<or> (hd ds = CHR ''0'' \<and> tl ds \<noteq> []) then None
      else if r \<noteq> [] \<and> hd r \<in> set ''.eE'' then None
      else Some (nat_of_digits ds, r))"

fun parse_value :: "nat \<Rightarrow> string \<Rightarrow> (jsval \<times> string) option"
  and parse_elements :: "nat \<Rightarrow> string \<Rightarrow> (jsval list \<times> string) option"
  and parse_members :: "nat \<Rightarrow> string \<Rightarrow> ((string \<times> jsval) list \<times> string) option" where
  "parse_value 0 cs = None"
| "parse_value (Suc n) cs =
     (case skip_ws cs of
        [] \<Rightarrow> None
      | c # r \<Rightarrow>
          if c = dquote then map_option (apfst JStr) (parse_chars r)
          else if c = CHR ''['' then
            (case skip_ws r of
               [] \<Rightarrow> None
             | c1 # r1 \<Rightarrow>
                 if c1 = CHR '']'' then Some (JArr [], r1)
                 else map_option (apfst JArr) (parse_elements n r))
          else if c = CHR ''{'' then
            (case skip_ws r of
               [] \<Rightarrow> None
             | c1 # r1 \<Rightarrow>
                 if c1 = CHR ''}'' then Some (JObj [], r1)
                 else map_option (apfst JObj) (parse_members n r))
          else if take 4 (c # r) = ''true'' then Some (JBool True, drop 3 r)
          else if take 5 (c # r) = ''false'' then Some (JBool False, drop 4 r)
          else if take 4 (c # r) = ''null'' then Some (JNull, drop 3 r)
          else if c = CHR ''-'' then map_option (apfst (\<lambda>k. JNum (- int k))) (parse_nat r)
          else map_option (apfst (\<lambda>k. JNum (int k))) (parse_nat (c # r)))"
| "parse_elements 0 cs = None"
| "parse_elements (Suc n) cs =
     (case parse_value n cs of
        None \<Rightarrow> None
      | Some (v, r) \<Rightarrow>
          (case skip_ws r of
             [] \<Rightarrow> None
           | c # r1 \<Rightarrow>
               if c = CHR '','' then map_option (apfst ((#) v)) (parse_elements n r1)
               else if c = CHR '']'' then Some ([v], r1)
               else None))"
| "parse_members 0 cs = None"
| "parse_members (Suc n) cs =
     (case skip_ws cs of
        [] \<Rightarrow> None
      | c # r \<Rightarrow>
          if c \<noteq> dquote then None
          else
            (case parse_chars r of
               None \<Rightarrow> None
             | Some (k, r1) \<Rightarrow>
                 (case skip_ws r1 of
                    [] \<Rightarrow> None
                  | c1 # r2 \<Rightarrow>
                      if c1 \<noteq> CHR '':'' then None
                      else
                        (case parse_value n r2 of
                           None \<Rightarrow> None
                         | Some (v, r3) \<Rightarrow>
                             (case skip_ws r3 of
                                [] \<Rightarrow> None
                              | c3 # r4 \<Rightarrow>
                                  if c3 = CHR '','' then
                                    map_option (apfst ((#) (k, v))) (parse_members n r4)
                                  else if c3 = CHR ''}'' then Some ([(k, v)], r4)
                                  else None)))))"

definition json_parse :: "string \<Rightarrow> jsval option" where
  "json_parse raw =
     (case parse_value (Suc (length raw)) raw of
        None \<Rightarrow> None
      | Some (v, r) \<Rightarrow> if skip_ws r = [] then Some v else None)"

subsection \<open>What JSON keeps of a value\<close>

text \<open>
  \<^verbatim>\<open>JSON.stringify\<close> does not write \<^verbatim>\<open>undefined\<close>: a property with that value is left
  out of its object and an array element with that value is written as \<^verbatim>\<open>null\<close>.
  \<open>json_norm v\<close> is the value that is read back from the text of \<open>v\<close>.
\<close>

fun json_norm :: "jsval \<Rightarrow> jsval"
  and norm_elements :: "jsval list \<Rightarrow> jsval list"
  and norm_members :: "(string \<times> jsval) list \<Rightarrow> (string \<times> jsval) list" where
  "json_norm JUndefined = JUndefined"
| "json_norm JNull = JNull"
| "json_norm (JBool b) = JBool b"
| "json_norm (JNum n) = JNum n"
| "json_norm (JStr s) = JStr s"
| "json_norm (JArr vs) = JArr (norm_elements vs)"
| "json_norm (JObj ps) = JObj (norm_members ps)"
| "norm_elements [] = []"
| "norm_elements (v # vs) = (if v = JUndefined then JNull else json_norm v) # norm_elements vs"
| "norm_members [] = []"
| "norm_members ((k, v) # ps) =
     (if v = JUndefined then norm_members ps else (k, json_norm v) # norm_members ps)"

text \<open>The values that JSON reproduces: no \<^verbatim>\<open>undefined\<close> anywhere inside.\<close>

fun json_value :: "jsval \<Rightarrow> bool"
  and json_values :: "jsval list \<Rightarrow> bool"
  and json_members :: "(string \<times> jsval) list \<Rightarrow> bool" where
  "json_value JUndefined = False"
| "json_value JNull = True"
| "json_value (JBool b) = True"
| "json_value (JNum n) = True"
| "json_value (JStr s) = True"
| "json_value (JArr vs) = json_values vs"
| "json_value (JObj ps) = json_members ps"
| "json_values [] = True"
| "json_values (v # vs) = (json_value v \<and> json_values vs)"
| "json_members [] = True"
| "json_members ((k, v) # ps) = (json_value v \<and> json_members ps)"

text \<open>
  A task as it comes back from the slot, and the tasks that come back unchanged: every
  field is a value that JSON reproduces, where the id and the text may also be
  \<^verbatim>\<open>undefined\<close> (the property is left out and read back as \<^verbatim>\<open>undefined\<close>).
\<close>

definition json_task :: "todo \<Rightarrow> todo" where
  "json_task t = Todo (json_norm (id_of t)) (json_norm (text_of t)) (json_norm (completed t))"

definition stable_task :: "todo \<Rightarrow> bool" where
  "stable_task t \<longleftrightarrow>
     (id_of t = JUndefined \<or> json_value (id_of t)) \<and>
     (text_of t = JUndefined \<or> json_value (text_of t)) \<and>
     json_value (completed t)"

text \<open>
  Two measures for the proofs about \<open>json_parse\<close>: a recursion bound that suffices to
  read the text of a value, and the texts that may follow a value.
\<close>

fun weight :: "jsval \<Rightarrow> nat"
  and welems :: "jsval list \<Rightarrow> nat"
  and wmembers :: "(string \<times> jsval) list \<Rightarrow> nat" where
  "weight JUndefined = 1"
| "weight JNull = 1"
| "weight (JBool b) = 1"
| "weight (JNum n) = 1"
| "weight (JStr s) = 1"
| "weight (JArr vs) = Suc (welems vs)"
| "weight (JObj ps) = Suc (wmembers ps)"
| "welems [] = 0"
| "welems (v # vs) = Suc (weight v + welems vs)"
| "wmembers [] = 0"
| "wmembers ((k, v) # ps) =
     (if v = JUndefined then wmembers ps else Suc (weight v + wmembers ps))"

definition delim :: "string \<Rightarrow> bool" where
  "delim rest =
     (case rest of [] \<Rightarrow> True | c # cs \<Rightarrow> c = CHR '','' \<or> c = CHR '']'' \<or> c = CHR ''}'')"

subsection \<open>Sessions, the persisted invariant and the specified storage shape\<close>

text \<open>A sequence of \<^verbatim>\<open>addTodo\<close> calls, each with its own clock reading, random text and
  task text.\<close>

fun addTodos :: "(jsval \<Rightarrow> string) \<Rightarrow> (int \<times> string \<times> jsval) list \<Rightarrow> store \<Rightarrow> store" where
  "addTodos stringify [] s = s"
| "addTodos stringify ((now, rnd, txt) # calls) s =
     addTodos stringify calls (snd (addTodo stringify now rnd txt s))"

text \<open>The slot holds exactly the serialization of the array.\<close>

definition persisted :: "(jsval \<Rightarrow> string) \<Rightarrow> store \<Rightarrow> bool" where
  "persisted stringify s \<longleftrightarrow> storage s = Some (stringify (serialize (todos s)))"

text \<open>
  The persistence format in the words of the specification (section 6): an array of
  objects, each with exactly the three fields \<^verbatim>\<open>id\<close> (string), \<^verbatim>\<open>text\<close> (string) and
  \<^verbatim>\<open>completed\<close> (boolean). The code has no such test; these two predicates only serve
  to compare it with the specification.
\<close>

definition spec_task_shape :: "jsval \<Rightarrow> bool" where
  "spec_task_shape v =
     (case v of
        JObj ps \<Rightarrow>
          distinct (map fst ps) \<and> set (map fst ps) = {''id'', ''text'', ''completed''} \<and>
          (case (map_of ps ''id'', map_of ps ''text'', map_of ps ''completed'') of
             (Some (JStr i), Some (JStr t), Some (JBool c)) \<Rightarrow> True
           | _ \<Rightarrow> False)
      | _ \<Rightarrow> False)"

definition spec_shape :: "jsval \<Rightarrow> bool" where
  "spec_shape v = (case v of JArr items \<Rightarrow> list_all spec_task_shape items | _ \<Rightarrow> False)"

text \<open>
  The Task of the data model (section 3 of the specification): the id and the text are
  strings and the flag is a boolean.
\<close>

definition task_typed :: "todo \<Rightarrow> bool" where
  "task_typed t =
     (case (id_of t, text_of t, completed t) of
        (JStr i, JStr x, JBool b) \<Rightarrow> True
      | _ \<Rightarrow> False)"

subsection \<open>Example stores\<close>

definition empty_store :: store where
  "empty_store = \<lparr>todos = [], storage = None\<rparr>"

text \<open>
  The scenario of the specification (section 8): start empty, load, add "buy milk", add
  "walk dog", toggle the dog. The clock readings and random texts are examples.
\<close>

definition milk_dog_store :: store where
  "milk_dog_store =
     toggleTodo json_stringify (new_id 1700000000001 ''0.k3x9q07hd2'')
       (snd (addTodo json_stringify 1700000000001 ''0.k3x9q07hd2'' (JStr ''walk dog'')
         (snd (addTodo json_stringify 1700000000000 ''0.4fzyo82mvyr'' (JStr ''buy milk'')
           (loadFromStorage json_parse empty_store)))))"

definition abc_store :: store where
  "abc_store =
     \<lparr>todos = [Todo (JStr ''a'') (JStr ''one'') JUndefined,
               Todo (JStr ''b'') (JStr ''two'') (JBool True),
               Todo (JStr ''c'') (JStr ''three'') JUndefined],
      storage = None\<rparr>"

section \<open>Auxiliary facts\<close>

lemmas codec_simps = json_parse_def skip_ws_def is_ws_def dquote_def bslash_def unescape_def
  hex_val_def is_digit_def parse_nat_def nat_of_digits_def quote_def escape_char_def

lemmas store_simps = loadFromStorage_def try_rehydrate_def rehydrate_item_def Todo_def
  saveToStorage_def serialize_def plain_def addTodo_def new_id_def string_of_int_def
  editTodo_def toggleTodo_def deleteTodo_def clearCompleted_def reorderTodos_def filterTodos_def
  toggle_def setText_def splice_in_def splice_out_def empty_store_def Let_def
  string_of_nat.simps

subsection \<open>Searching an array\<close>

lemma findIndex_None_iff: "findIndex P xs = None \<longleftrightarrow> (\<forall>x\<in>set xs. \<not> P x)"
  by (induction xs) auto

lemma findIndex_SomeD:
  "findIndex P xs = Some i \<Longrightarrow> i < length xs \<and> P (xs ! i) \<and> (\<forall>j<i. \<not> P (xs ! j))"
proof (induction xs arbitrary: i)
  case Nil
  then show ?case by simp
next
  case (Cons x xs)
  show ?case
  proof (cases "P x")
    case True
    with Cons.prems show ?thesis by simp
  next
    case False
    with Cons.prems obtain k where k: "findIndex P xs = Some k" "i = Suc k"
      by auto
    from Cons.IH[OF k(1)] False k(2) show ?thesis
      by (auto simp: less_Suc_eq_0_disj)
  qed
qed

lemma find_findIndex:
  "find P xs = Some x \<longleftrightarrow> (\<exists>i. findIndex P xs = Some i \<and> xs ! i = x)"
  by (induction xs) auto

lemma find_None_findIndex: "find P xs = None \<longleftrightarrow> findIndex P xs = None"
  by (induction xs) auto

lemma find_Some_iff_mem: "(\<exists>x. find (\<lambda>t. id_of t = i) xs = Some x) \<longleftrightarrow> i \<in> id_of ` set xs"
  by (induction xs) auto

lemma findIndex_Some_iff_mem:
  "(\<exists>k. findIndex (\<lambda>t. id_of t = i) xs = Some k) \<longleftrightarrow> i \<in> id_of ` set xs"
  by (induction xs) auto

subsection \<open>Splicing\<close>

lemma splice_in_out_same:
  "i < length xs \<Longrightarrow> splice_in i (xs ! i) (splice_out i xs) = xs"
  by (simp add: splice_in_def splice_out_def min_def id_take_nth_drop[symmetric])

lemma splice_out_length: "i < length xs \<Longrightarrow> length (splice_out i xs) = length xs - 1"
  by (simp add: splice_out_def)

lemma splice_out_nth:
  "i < length xs \<Longrightarrow> k < length xs - 1 \<Longrightarrow>
   splice_out i xs ! k = (if k < i then xs ! k else xs ! Suc k)"
  by (auto simp: splice_out_def nth_append min_def)

lemma splice_in_nth_split:
  "p < length r \<Longrightarrow> splice_in p x r = take p r @ x # r ! p # drop (Suc p) r"
  by (simp add: splice_in_def Cons_nth_drop_Suc)

text \<open>Taking out the element at the first index where it occurs is \<open>remove1\<close>.\<close>

lemma remove1_first:
  "i < length xs \<Longrightarrow> \<forall>j<i. xs ! j \<noteq> xs ! i \<Longrightarrow> remove1 (xs ! i) xs = splice_out i xs"
proof (induction xs arbitrary: i)
  case Nil
  then show ?case by simp
next
  case (Cons x xs)
  show ?case
  proof (cases i)
    case 0
    then show ?thesis by (simp add: splice_out_def)
  next
    case (Suc k)
    with Cons.prems have "x \<noteq> xs ! k" by auto
    moreover from Cons.prems Suc have "\<forall>j<k. xs ! j \<noteq> xs ! k" by auto
    moreover from Cons.prems Suc have "k < length xs" by simp
    ultimately show ?thesis using Cons.IH[of k] Suc
      by (simp add: splice_out_def)
  qed
qed

text \<open>Where the target sits once the dragged element is gone: the index the code
  computes.\<close>

lemma target_after_removal:
  assumes "i < length xs" "j < length xs" "i \<noteq> j"
  defines "p \<equiv> (if i < j then j - 1 else j)"
  shows "p < length (splice_out i xs)" "splice_out i xs ! p = xs ! j"
proof -
  from assms show "p < length (splice_out i xs)"
    by (auto simp: splice_out_length)
  from assms have "p < length xs - 1" by auto
  with assms show "splice_out i xs ! p = xs ! j"
    by (auto simp: splice_out_nth)
qed

subsection \<open>What each operation does to the store\<close>

lemma todos_saveToStorage [simp]: "todos (saveToStorage st s) = todos s"
  by (simp add: saveToStorage_def)

lemma storage_saveToStorage [simp]:
  "storage (saveToStorage st s) = Some (st (serialize (todos s)))"
  by (simp add: saveToStorage_def)

lemma persisted_saveToStorage: "persisted st (saveToStorage st s)"
  by (simp add: persisted_def)

lemma reorderTodos_found:
  assumes "d \<noteq> t"
    and "findIndex (\<lambda>x. id_of x = d) (todos s) = Some di"
    and "findIndex (\<lambda>x. id_of x = t) (todos s) = Some ti"
  shows "reorderTodos st d t s =
         saveToStorage st
           (s\<lparr>todos := splice_in (if di < ti then ti - 1 else ti) (todos s ! di)
                         (splice_out di (todos s))\<rparr>)"
  using assms by (simp add: reorderTodos_def Let_def)

text \<open>Each guarded operation either returns the store it was given or ends in
  \<open>saveToStorage\<close>, and which of the two depends on the ids alone.\<close>

lemma editTodo_cases:
  "editTodo st i nt s = s \<and> i \<notin> id_of ` set (todos s) \<or>
   (\<exists>s'. editTodo st i nt s = saveToStorage st s') \<and> i \<in> id_of ` set (todos s)"
  using find_Some_iff_mem[of i "todos s"]
  by (cases "find (\<lambda>t. id_of t = i) (todos s)") (auto simp: editTodo_def)

lemma toggleTodo_cases:
  "toggleTodo st i s = s \<and> i \<notin> id_of ` set (todos s) \<or>
   (\<exists>s'. toggleTodo st i s = saveToStorage st s') \<and> i \<in> id_of ` set (todos s)"
  using find_Some_iff_mem[of i "todos s"]
  by (cases "find (\<lambda>t. id_of t = i) (todos s)") (auto simp: toggleTodo_def)

lemma deleteTodo_cases:
  "deleteTodo st i s = s \<and> i \<notin> id_of ` set (todos s) \<or>
   (\<exists>s'. deleteTodo st i s = saveToStorage st s') \<and> i \<in> id_of ` set (todos s)"
  using findIndex_Some_iff_mem[of i "todos s"]
  by (cases "findIndex (\<lambda>t. id_of t = i) (todos s)") (auto simp: deleteTodo_def)

lemma reorderTodos_cases:
  "reorderTodos st d t s = s \<and> (d = t \<or> d \<notin> id_of ` set (todos s) \<or> t \<notin> id_of ` set (todos s)) \<or>
   (\<exists>s'. reorderTodos st d t s = saveToStorage st s') \<and>
     d \<noteq> t \<and> d \<in> id_of ` set (todos s) \<and> t \<in> id_of ` set (todos s)"
proof (cases "d = t")
  case True
  then show ?thesis by (simp add: reorderTodos_def)
next
  case False
  show ?thesis
  proof (cases "findIndex (\<lambda>x. id_of x = d) (todos s)")
    case None
    then have "d \<notin> id_of ` set (todos s)"
      using findIndex_Some_iff_mem[of d "todos s"] by simp
    with None False show ?thesis by (simp add: reorderTodos_def)
  next
    case (Some di)
    then have d: "d \<in> id_of ` set (todos s)"
      using findIndex_Some_iff_mem[of d "todos s"] by blast
    show ?thesis
    proof (cases "findIndex (\<lambda>x. id_of x = t) (todos s)")
      case None
      then have "t \<notin> id_of ` set (todos s)"
        using findIndex_Some_iff_mem[of t "todos s"] by simp
      with None Some False show ?thesis by (simp add: reorderTodos_def)
    next
      case (Some ti)
      then have t: "t \<in> id_of ` set (todos s)"
        using findIndex_Some_iff_mem[of t "todos s"] by blast
      from reorderTodos_found[OF False \<open>findIndex (\<lambda>x. id_of x = d) (todos s) = Some di\<close> Some]
      have "\<exists>s'. reorderTodos st d t s = saveToStorage st s'" by blast
      with False d t show ?thesis by blast
    qed
  qed
qed

subsection \<open>Rehydration\<close>


text \<open>The callback of \<^verbatim>\<open>data.map\<close> throws exactly on \<^verbatim>\<open>null\<close> and \<^verbatim>\<open>undefined\<close>.\<close>

lemma rehydrate_item_Inl_iff: "(\<exists>e. rehydrate_item item = Inl e) \<longleftrightarrow> item = JNull \<or> item = JUndefined"
  by (cases item) (auto simp: rehydrate_item_def)

lemma rehydrate_all_Inl_iff:
  "(\<exists>e. rehydrate_all items = Inl e) \<longleftrightarrow> JNull \<in> set items \<or> JUndefined \<in> set items"
proof (induction items)
  case Nil
  then show ?case by simp
next
  case (Cons item items)
  show ?case
  proof (cases "rehydrate_item item")
    case (Inl e)
    with rehydrate_item_Inl_iff[of item] show ?thesis by auto
  next
    case (Inr t)
    with rehydrate_item_Inl_iff[of item] have "item \<noteq> JNull" "item \<noteq> JUndefined" by auto
    with Inr Cons.IH show ?thesis
      by (cases "rehydrate_all items") auto
  qed
qed

lemma rehydrate_all_Inr:
  "rehydrate_all items = Inr ts \<Longrightarrow> map Inr ts = map rehydrate_item items"
  by (induction items arbitrary: ts) (auto split: sum.splits)

subsection \<open>Generated ids\<close>

text \<open>The decimal rendering is injective, so two ids whose clock parts have the same
  number of digits agree only if clock reading and random suffix agree.\<close>

lemma digit_inj:
  "a < 10 \<Longrightarrow> b < 10 \<Longrightarrow> ''0123456789'' ! a = ''0123456789'' ! b \<Longrightarrow> a = (b::nat)"
proof -
  assume "a < 10" "b < 10" and eq: "''0123456789'' ! a = ''0123456789'' ! b"
  have "distinct ''0123456789''" by simp
  moreover have "a < length ''0123456789''" "b < length ''0123456789''"
    using \<open>a < 10\<close> \<open>b < 10\<close> by simp_all
  ultimately show "a = b" using eq by (simp only: nth_eq_iff_index_eq)
qed

lemma digit_not_minus: "a < 10 \<Longrightarrow> ''0123456789'' ! a \<noteq> CHR ''-''"
proof -
  assume "a < 10"
  then have "''0123456789'' ! a \<in> set ''0123456789''"
    by (intro nth_mem) simp
  then show ?thesis by auto
qed

lemma string_of_nat_nonempty: "string_of_nat n \<noteq> []"
  by (subst string_of_nat.simps) simp

lemma string_of_nat_hd: "hd (string_of_nat n) \<noteq> CHR ''-''"
proof (induction n rule: string_of_nat.induct)
  case (1 n)
  show ?case
  proof (cases "n < 10")
    case True
    then show ?thesis
      by (subst string_of_nat.simps) (simp add: digit_not_minus)
  next
    case False
    with 1 string_of_nat_nonempty[of "n div 10"] show ?thesis
      by (subst string_of_nat.simps) simp
  qed
qed

lemma string_of_nat_inj: "string_of_nat n = string_of_nat m \<Longrightarrow> n = m"
proof (induction n arbitrary: m rule: string_of_nat.induct)
  case (1 n)
  show ?case
  proof (cases "n < 10")
    case n: True
    show ?thesis
    proof (cases "m < 10")
      case True
      with n "1.prems" show ?thesis
        by (simp add: string_of_nat.simps[of n] string_of_nat.simps[of m] digit_inj)
    next
      case False
      with n "1.prems" string_of_nat_nonempty[of "m div 10"] show ?thesis
        by (simp add: string_of_nat.simps[of n] string_of_nat.simps[of m])
    qed
  next
    case n: False
    show ?thesis
    proof (cases "m < 10")
      case True
      with n "1.prems" string_of_nat_nonempty[of "n div 10"] show ?thesis
        by (simp add: string_of_nat.simps[of n] string_of_nat.simps[of m])
    next
      case False
      with n "1.prems" have "string_of_nat (n div 10) = string_of_nat (m div 10)"
        and d: "''0123456789'' ! (n mod 10) = ''0123456789'' ! (m mod 10)"
        by (simp_all add: string_of_nat.simps[of n] string_of_nat.simps[of m])
      with "1.IH"[OF n] have "n div 10 = m div 10" by simp
      moreover from d have "n mod 10 = m mod 10" by (intro digit_inj) simp_all
      ultimately show ?thesis by (metis div_mult_mod_eq)
    qed
  qed
qed

lemma string_of_int_inj: "string_of_int a = string_of_int b \<Longrightarrow> a = b"
proof -
  assume eq: "string_of_int a = string_of_int b"
  have neg: False if "x < 0" "0 \<le> y" "string_of_int x = string_of_int y" for x y
  proof -
    from that have "CHR ''-'' # string_of_nat (nat (- x)) = string_of_nat (nat y)"
      by (simp add: string_of_int_def)
    then have "hd (string_of_nat (nat y)) = CHR ''-''" by (metis list.sel(1))
    with string_of_nat_hd show False by blast
  qed
  show "a = b"
  proof (cases "a < 0"; cases "b < 0")
    assume "a < 0" "b < 0"
    with eq have "nat (- a) = nat (- b)"
      by (simp add: string_of_int_def string_of_nat_inj)
    with \<open>a < 0\<close> \<open>b < 0\<close> show ?thesis by simp
  next
    assume "a < 0" "\<not> b < 0"
    with neg[of a b] eq show ?thesis by simp
  next
    assume "\<not> a < 0" "b < 0"
    with neg[of b a] eq show ?thesis by simp
  next
    assume "\<not> a < 0" "\<not> b < 0"
    with eq have "nat a = nat b"
      by (simp add: string_of_int_def string_of_nat_inj)
    with \<open>\<not> a < 0\<close> \<open>\<not> b < 0\<close> show ?thesis by simp
  qed
qed

lemma new_id_eq_iff:
  assumes "length (string_of_int n1) = length (string_of_int n2)"
  shows "new_id n1 r1 = new_id n2 r2 \<longleftrightarrow> n1 = n2 \<and> take 5 (drop 2 r1) = take 5 (drop 2 r2)"
  using assms string_of_int_inj[of n1 n2] by (auto simp: new_id_def)

lemma todos_addTodo:
  "todos (snd (addTodo st now rnd txt s)) = todos s @ [Todo (new_id now rnd) txt JUndefined]"
  by (simp add: addTodo_def Let_def)

lemma ids_addTodos:
  "map id_of (todos (addTodos st calls s)) =
   map id_of (todos s) @ map (\<lambda>(now, rnd, txt). new_id now rnd) calls"
proof (induction calls arbitrary: s)
  case Nil
  then show ?case by simp
next
  case (Cons c calls)
  obtain now rnd tx where c: "c = (now, rnd, tx)" by (cases c) auto
  show ?case using Cons.IH[of "snd (addTodo st now rnd tx s)"]
    by (simp add: c todos_addTodo Todo_def)
qed

subsection \<open>Typed tasks\<close>

lemma task_typed_iff:
  "task_typed t \<longleftrightarrow> (\<exists>i x b. id_of t = JStr i \<and> text_of t = JStr x \<and> completed t = JBool b)"
  by (auto simp: task_typed_def split: jsval.splits)

lemma task_typed_Todo: "task_typed (Todo (JStr i) (JStr x) JUndefined)"
  by (simp add: task_typed_def Todo_def)

lemma task_typed_toggle: "task_typed t \<Longrightarrow> task_typed (toggle t)"
  by (auto simp: task_typed_iff toggle_def)

lemma task_typed_setText: "task_typed t \<Longrightarrow> task_typed (setText (JStr x) t)"
  by (auto simp: task_typed_iff setText_def)

lemma list_all_update_found:
  "list_all Q xs \<Longrightarrow> (\<And>x. Q x \<Longrightarrow> Q (f x)) \<Longrightarrow> list_all Q (update_found P f xs)"
  by (induction xs) auto

lemma list_all_splice_out: "list_all Q xs \<Longrightarrow> list_all Q (splice_out i xs)"
  by (auto simp: splice_out_def list_all_iff dest: in_set_takeD in_set_dropD)

lemma list_all_splice_in: "list_all Q xs \<Longrightarrow> Q x \<Longrightarrow> list_all Q (splice_in i x xs)"
  by (auto simp: splice_in_def list_all_iff dest: in_set_takeD in_set_dropD)

text \<open>Every operation of the store keeps the tasks typed, given string arguments.\<close>

lemma task_typed_preserved:
  assumes "list_all task_typed (todos s)"
  shows "list_all task_typed (todos (snd (addTodo st now rnd (JStr x) s)))"
    and "list_all task_typed (todos (editTodo st i (JStr x) s))"
    and "list_all task_typed (todos (toggleTodo st i s))"
    and "list_all task_typed (todos (deleteTodo st i s))"
    and "list_all task_typed (todos (clearCompleted st s))"
    and "list_all task_typed (todos (reorderTodos st d t s))"
proof -
  show "list_all task_typed (todos (snd (addTodo st now rnd (JStr x) s)))"
    using assms by (simp add: addTodo_def Let_def new_id_def task_typed_Todo)
  show "list_all task_typed (todos (editTodo st i (JStr x) s))"
    using assms
    by (simp add: editTodo_def list_all_update_found task_typed_setText split: option.splits)
  show "list_all task_typed (todos (toggleTodo st i s))"
    using assms
    by (simp add: toggleTodo_def list_all_update_found task_typed_toggle split: option.splits)
  show "list_all task_typed (todos (deleteTodo st i s))"
    using assms by (simp add: deleteTodo_def list_all_splice_out split: option.splits)
  show "list_all task_typed (todos (clearCompleted st s))"
    using assms by (simp add: clearCompleted_def list_all_iff)
  show "list_all task_typed (todos (reorderTodos st d t s))"
  proof -
    have "list_all task_typed (splice_in p (todos s ! di) (splice_out di (todos s)))"
      if "findIndex (\<lambda>x. id_of x = d) (todos s) = Some di" for p di
    proof -
      from findIndex_SomeD[OF that] have "todos s ! di \<in> set (todos s)" by simp
      with assms have "task_typed (todos s ! di)" by (simp add: list_all_iff)
      with assms show ?thesis by (simp add: list_all_splice_in list_all_splice_out)
    qed
    with assms show ?thesis
      by (simp add: reorderTodos_def Let_def split: option.splits)
  qed
qed

text \<open>A stored value of the specified shape is loaded as typed tasks.\<close>

lemma rehydrate_item_shaped:
  assumes "spec_task_shape item"
  shows "\<exists>t. rehydrate_item item = Inr t \<and> task_typed t"
proof -
  from assms obtain ps where item: "item = JObj ps" and d: "distinct (map fst ps)"
    and m: "\<exists>i x b. map_of ps ''id'' = Some (JStr i) \<and> map_of ps ''text'' = Some (JStr x) \<and>
             map_of ps ''completed'' = Some (JBool b)"
    by (auto simp: spec_task_shape_def split: jsval.splits option.splits)
  from d have "distinct (map fst (rev ps))" by (simp add: rev_map[symmetric])
  with d have "map_of (rev ps) = map_of ps" by (simp add: map_of_inject_set)
  with item m show ?thesis
    by (auto simp: rehydrate_item_def Todo_def task_typed_def)
qed

lemma rehydrate_all_shaped:
  "list_all spec_task_shape items \<Longrightarrow> \<exists>ts. rehydrate_all items = Inr ts \<and> list_all task_typed ts"
proof (induction items)
  case Nil
  then show ?case by simp
next
  case (Cons item items)
  then obtain t ts where "rehydrate_item item = Inr t" "task_typed t"
    "rehydrate_all items = Inr ts" "list_all task_typed ts"
    using rehydrate_item_shaped[of item] by auto
  then show ?case by simp
qed

lemma task_typed_load:
  "list_all task_typed (todos (loadFromStorage parse s)) \<or>
   (\<exists>raw data. storage s = Some raw \<and> parse raw = Some data \<and> \<not> spec_shape data)"
proof (cases "storage s")
  case None
  then show ?thesis by (simp add: loadFromStorage_def)
next
  case (Some raw)
  show ?thesis
  proof (cases "parse raw")
    case None
    with Some show ?thesis by (simp add: loadFromStorage_def try_rehydrate_def)
  next
    case (Some data)
    show ?thesis
    proof (cases "spec_shape data")
      case True
      then obtain items where "data = JArr items" "list_all spec_task_shape items"
        by (auto simp: spec_shape_def split: jsval.splits)
      with rehydrate_all_shaped[of items] Some \<open>storage s = Some raw\<close> show ?thesis
        by (auto simp: loadFromStorage_def try_rehydrate_def)
    next
      case False
      with Some \<open>storage s = Some raw\<close> show ?thesis by blast
    qed
  qed
qed

subsection \<open>The reference codec reads back what it wrote\<close>

text \<open>An escaped character is read back as the character.\<close>

lemma hex_digit_val: "k < 16 \<Longrightarrow> hex_val (''0123456789abcdef'' ! k) = Some k"
proof -
  assume "k < 16"
  then have "k \<in> set [0..<16]" by simp
  also have "[0..<16] = [0,1,2,3,4,5,6,7,8,9,10,11,12,13,14,15::nat]"
    by (simp add: upt_rec)
  finally show ?thesis
    by (auto simp: hex_val_def)
qed

lemma skip_ws_Cons: "\<not> is_ws c \<Longrightarrow> skip_ws (c # cs) = c # cs"
  by (simp add: skip_ws_def)

lemma parse_chars_escape_char:
  "parse_chars (escape_char c @ tail) = map_option (apfst ((#) c)) (parse_chars tail)"
proof -
  consider (dq) "c = dquote" | (bs) "c = bslash" | (b) "c = CHR 0x08" | (f) "c = CHR 0x0C"
    | (n) "c = CHR 0x0A" | (r) "c = CHR 0x0D" | (t) "c = CHR 0x09"
    | (ctl) "c \<noteq> dquote" "c \<noteq> bslash" "c \<noteq> CHR 0x08" "c \<noteq> CHR 0x0C" "c \<noteq> CHR 0x0A"
        "c \<noteq> CHR 0x0D" "c \<noteq> CHR 0x09" "of_char c < (32::nat)"
    | (plain) "c \<noteq> dquote" "c \<noteq> bslash" "\<not> of_char c < (32::nat)"
    by blast
  then show ?thesis
  proof cases
    case ctl
    let ?n = "of_char c :: nat"
    from ctl have d: "?n div 16 < 16" "?n mod 16 < 16" by simp_all
    have chr: "char_of (16 * (?n div 16) + ?n mod 16) = c"
      by simp
    have z: "hex_val (CHR ''0'') = Some 0" by (simp add: hex_val_def)
    from ctl have "escape_char c =
        [bslash, CHR ''u'', CHR ''0'', CHR ''0'',
         ''0123456789abcdef'' ! (?n div 16), ''0123456789abcdef'' ! (?n mod 16)]"
      by (simp add: escape_char_def)
    then show ?thesis
      using z hex_digit_val[OF d(1)] hex_digit_val[OF d(2)] chr
      by (simp add: dquote_def bslash_def)
  qed (simp_all add: escape_char_def unescape_def dquote_def bslash_def)
qed

lemma parse_chars_escaped:
  "parse_chars (concat (map escape_char s) @ dquote # rest) = Some (s, rest)"
  by (induction s) (simp_all add: parse_chars_escape_char)

lemma not_ws:
  "\<not> is_ws dquote" "\<not> is_ws (CHR '','')" "\<not> is_ws (CHR '':'')" "\<not> is_ws (CHR '']'')"
  "\<not> is_ws (CHR ''}'')" "\<not> is_ws (CHR ''{'')" "\<not> is_ws (CHR ''['')"
  "\<not> is_ws (CHR ''t'')" "\<not> is_ws (CHR ''f'')"
  by (simp_all add: is_ws_def dquote_def)

lemma parse_quote: "parse_chars (tl (quote s) @ rest) = Some (s, rest)"
  by (simp add: quote_def parse_chars_escaped)

lemma quote_Cons: "quote s = dquote # tl (quote s)"
  by (simp add: quote_def)

lemma parse_value_string:
  "parse_value (Suc n) (quote s @ rest) = Some (JStr s, rest)"
  by (subst quote_Cons) (simp add: skip_ws_Cons not_ws parse_quote)

lemma parse_value_bool:
  "parse_value (Suc n) ((if b then ''true'' else ''false'') @ rest) = Some (JBool b, rest)"
  by (simp add: skip_ws_Cons not_ws dquote_def)

lemma parse_members_more:
  assumes "parse_value m (vtext @ CHR '','' # after) = Some (v, CHR '','' # after)"
  shows "parse_members (Suc m) (quote k @ CHR '':'' # vtext @ CHR '','' # after) =
         map_option (apfst ((#) (k, v))) (parse_members m after)"
  using assms by (subst quote_Cons) (simp add: skip_ws_Cons not_ws parse_quote)

lemma parse_members_last:
  assumes "parse_value m (vtext @ CHR ''}'' # rest) = Some (v, CHR ''}'' # rest)"
  shows "parse_members (Suc m) (quote k @ CHR '':'' # vtext @ CHR ''}'' # rest) =
         Some ([(k, v)], rest)"
  using assms by (subst quote_Cons) (simp add: skip_ws_Cons not_ws parse_quote)


lemma plain_defined: "plain t \<noteq> JUndefined"
  by (simp add: plain_def)


lemma parse_elements_last:
  "parse_value m cs = Some (v, CHR '']'' # rest) \<Longrightarrow> parse_elements (Suc m) cs = Some ([v], rest)"
  by (simp add: skip_ws_Cons not_ws)

lemma parse_elements_more:
  "parse_value m cs = Some (v, CHR '','' # r1) \<Longrightarrow>
   parse_elements (Suc m) cs = map_option (apfst ((#) v)) (parse_elements m r1)"
  by (simp add: skip_ws_Cons not_ws)

text \<open>Integer literals.\<close>

lemma digit_code: "k < 10 \<Longrightarrow> of_char (''0123456789'' ! k) = 48 + k"
proof -
  assume "k < 10"
  then have "k \<in> set [0..<10]" by simp
  also have "[0..<10] = [0,1,2,3,4,5,6,7,8,9::nat]"
    by (simp add: upt_rec)
  finally show ?thesis by auto
qed

lemma digits_string_of_nat: "list_all is_digit (string_of_nat k)"
proof (induction k rule: string_of_nat.induct)
  case (1 n)
  have d: "is_digit (''0123456789'' ! j)" if "j < 10" for j
    using digit_code[OF that] that by (simp add: is_digit_def)
  show ?case
  proof (cases "n < 10")
    case True
    then show ?thesis by (subst string_of_nat.simps) (simp add: d)
  next
    case False
    with 1 show ?thesis by (subst string_of_nat.simps) (simp add: d)
  qed
qed

lemma nat_of_digits_string_of_nat: "nat_of_digits (string_of_nat k) = k"
proof (induction k rule: string_of_nat.induct)
  case (1 n)
  show ?case
  proof (cases "n < 10")
    case True
    then show ?thesis
      by (subst string_of_nat.simps) (simp add: nat_of_digits_def digit_code)
  next
    case False
    with 1 have "nat_of_digits (string_of_nat (n div 10)) = n div 10" by simp
    with False show ?thesis
      by (subst string_of_nat.simps) (simp add: nat_of_digits_def digit_code)
  qed
qed

lemma string_of_nat_zero: "string_of_nat 0 = ''0''"
  by (subst string_of_nat.simps) simp

lemma no_leading_zero:
  "hd (string_of_nat k) = CHR ''0'' \<Longrightarrow> tl (string_of_nat k) = []"
proof (induction k rule: string_of_nat.induct)
  case (1 n)
  show ?case
  proof (cases "n < 10")
    case True
    then show ?thesis by (subst string_of_nat.simps) simp
  next
    case False
    with "1.prems" string_of_nat_nonempty[of "n div 10"]
    have h: "hd (string_of_nat (n div 10)) = CHR ''0''"
      by (subst (asm) string_of_nat.simps) simp
    from "1.IH"[OF False h] string_of_nat_nonempty[of "n div 10"] h
    have "string_of_nat (n div 10) = ''0''"
      by (cases "string_of_nat (n div 10)") simp_all
    then have "n div 10 = 0"
      using string_of_nat_inj[of "n div 10" 0] by (simp add: string_of_nat_zero)
    with False show ?thesis by simp
  qed
qed

lemma delim_not_digit: "delim rest \<Longrightarrow> takeWhile is_digit rest = [] \<and> dropWhile is_digit rest = rest"
  by (cases rest) (auto simp: delim_def is_digit_def)

lemma parse_nat_string_of_nat:
  assumes "delim rest"
  shows "parse_nat (string_of_nat k @ rest) = Some (k, rest)"
proof -
  have all: "\<And>x. x \<in> set (string_of_nat k) \<Longrightarrow> is_digit x"
    using digits_string_of_nat[of k] by (simp add: list_all_iff)
  have t: "takeWhile is_digit (string_of_nat k @ rest) = string_of_nat k"
    using delim_not_digit[OF assms] by (simp add: takeWhile_append2[OF all])
  have d: "dropWhile is_digit (string_of_nat k @ rest) = rest"
    using delim_not_digit[OF assms] by (simp add: dropWhile_append2[OF all])
  have z: "\<not> (hd (string_of_nat k) = CHR ''0'' \<and> tl (string_of_nat k) \<noteq> [])"
    using no_leading_zero[of k] by blast
  have r: "\<not> (rest \<noteq> [] \<and> hd rest \<in> set ''.eE'')"
    using assms by (cases rest) (auto simp: delim_def)
  show ?thesis
    unfolding parse_nat_def Let_def t d
    using z r string_of_nat_nonempty[of k] by (simp add: nat_of_digits_string_of_nat)
qed

lemma digit_char_facts:
  assumes "is_digit d"
  shows "\<not> is_ws d" "d \<noteq> dquote" "d \<noteq> CHR ''[''" "d \<noteq> CHR ''{''" "d \<noteq> CHR '']''"
    "d \<noteq> CHR ''t''" "d \<noteq> CHR ''f''" "d \<noteq> CHR ''n''" "d \<noteq> CHR ''-''"
  using assms by (auto simp: is_digit_def is_ws_def dquote_def)

lemma string_of_nat_Cons: "\<exists>d ds. string_of_nat k = d # ds \<and> is_digit d"
  using digits_string_of_nat[of k] string_of_nat_nonempty[of k]
  by (cases "string_of_nat k") simp_all

lemma parse_value_number:
  assumes "delim rest"
  shows "parse_value (Suc m) (string_of_int n @ rest) = Some (JNum n, rest)"
proof (cases "n < 0")
  case True
  then show ?thesis
    using parse_nat_string_of_nat[OF assms, of "nat (- n)"]
    by (simp add: string_of_int_def skip_ws_Cons is_ws_def dquote_def)
next
  case False
  obtain d ds where d: "string_of_nat (nat n) = d # ds" "is_digit d"
    using string_of_nat_Cons by blast
  from parse_nat_string_of_nat[OF assms, of "nat n"] d(1)
  have "parse_nat (d # ds @ rest) = Some (nat n, rest)" by simp
  with False d show ?thesis
    by (simp add: string_of_int_def skip_ws_Cons digit_char_facts)
qed

lemma parse_value_null:
  "parse_value (Suc m) (''null'' @ rest) = Some (JNull, rest)"
  by (simp add: skip_ws_Cons is_ws_def dquote_def)

lemma parse_value_array_empty:
  "parse_value (Suc m) (CHR ''['' # CHR '']'' # rest) = Some (JArr [], rest)"
  by (simp add: skip_ws_Cons not_ws dquote_def)

lemma parse_value_array:
  "\<not> is_ws c \<Longrightarrow> c \<noteq> CHR '']'' \<Longrightarrow>
   parse_value (Suc m) (CHR ''['' # c # cs) = map_option (apfst JArr) (parse_elements m (c # cs))"
  by (simp add: skip_ws_Cons not_ws dquote_def del: parse_elements.simps)

lemma parse_value_object_empty:
  "parse_value (Suc m) (CHR ''{'' # CHR ''}'' # rest) = Some (JObj [], rest)"
  by (simp add: skip_ws_Cons not_ws dquote_def)

lemma parse_value_object:
  "parse_value (Suc m) (CHR ''{'' # dquote # cs) =
   map_option (apfst JObj) (parse_members m (dquote # cs))"
  by (simp add: skip_ws_Cons not_ws del: parse_members.simps) (simp add: dquote_def)

lemma commas_Cons: "commas (x # xs) = (if xs = [] then x else x @ CHR '','' # commas xs)"
  by (cases xs) simp_all

lemma stringify_elements_Nil: "stringify_elements vs = [] \<longleftrightarrow> vs = []"
  by (cases vs) simp_all

lemma value_head:
  "v \<noteq> JUndefined \<Longrightarrow> \<exists>c cs. json_stringify v = c # cs \<and> \<not> is_ws c \<and> c \<noteq> CHR '']''"
proof (cases v)
  case (JNum n)
  obtain d ds where "string_of_nat (nat n) = d # ds" "is_digit d"
    using string_of_nat_Cons by blast
  then have "\<not> is_ws d" "d \<noteq> CHR '']''" by (simp_all add: digit_char_facts)
  moreover have "\<not> is_ws (CHR ''-'')" by (simp add: is_ws_def)
  ultimately show ?thesis
    using JNum \<open>string_of_nat (nat n) = d # ds\<close> by (simp add: string_of_int_def)
qed (auto simp: is_ws_def quote_def dquote_def)

lemma elements_head:
  assumes "vs \<noteq> []"
  shows "\<exists>c cs. commas (stringify_elements vs) @ tail = c # cs \<and> \<not> is_ws c \<and> c \<noteq> CHR '']''"
proof -
  from assms obtain v vs' where vs: "vs = v # vs'" by (cases vs) auto
  have "\<exists>c cs. (if v = JUndefined then ''null'' else json_stringify v) = c # cs \<and>
          \<not> is_ws c \<and> c \<noteq> CHR '']''"
    using value_head[of v] by (auto simp: is_ws_def)
  then show ?thesis
    by (auto simp: vs commas_Cons)
qed

lemma members_head:
  "stringify_members ps \<noteq> [] \<Longrightarrow> \<exists>cs. commas (stringify_members ps) @ tail = dquote # cs"
proof (induction ps)
  case Nil
  then show ?case by simp
next
  case (Cons p ps)
  obtain k v where p: "p = (k, v)" by (cases p) auto
  show ?case
  proof (cases "v = JUndefined")
    case True
    with Cons p show ?thesis by simp
  next
    case False
    then show ?thesis by (simp add: p commas_Cons quote_def)
  qed
qed

text \<open>
  Reading the text of a value gives \<open>json_norm\<close> of the value, whatever follows it in
  an array or an object, once the recursion bound is large enough.
\<close>

lemma delim_facts: "delim (CHR '','' # r)" "delim (CHR '']'' # r)" "delim (CHR ''}'' # r)" "delim []"
  by (simp_all add: delim_def)

lemma parse_stringify:
  "v \<noteq> JUndefined \<longrightarrow>
     (\<forall>n rest. weight v \<le> n \<longrightarrow> delim rest \<longrightarrow>
        parse_value n (json_stringify v @ rest) = Some (json_norm v, rest))"
  "vs \<noteq> [] \<longrightarrow>
     (\<forall>n rest. welems vs \<le> n \<longrightarrow>
        parse_elements n (commas (stringify_elements vs) @ CHR '']'' # rest) =
        Some (norm_elements vs, rest))"
  "stringify_members ps \<noteq> [] \<longrightarrow>
     (\<forall>n rest. wmembers ps \<le> n \<longrightarrow>
        parse_members n (commas (stringify_members ps) @ CHR ''}'' # rest) =
        Some (norm_members ps, rest))"
proof (induction v and vs and ps rule: json_stringify_stringify_elements_stringify_members.induct)
  case 1
  show ?case by simp
next
  case 2
  show ?case
  proof (intro impI allI)
    fix n rest assume "weight JNull \<le> n"
    then obtain m where "n = Suc m" by (cases n) auto
    then show "parse_value n (json_stringify JNull @ rest) = Some (json_norm JNull, rest)"
      using parse_value_null[of m rest] by simp
  qed
next
  case (3 b)
  show ?case
  proof (intro impI allI)
    fix n rest assume "weight (JBool b) \<le> n"
    then obtain m where "n = Suc m" by (cases n) auto
    then show "parse_value n (json_stringify (JBool b) @ rest) = Some (json_norm (JBool b), rest)"
      using parse_value_bool[of m b rest] by (simp del: parse_value.simps)
  qed
next
  case (4 k)
  show ?case
  proof (intro impI allI)
    fix n rest assume "weight (JNum k) \<le> n" "delim rest"
    then obtain m where "n = Suc m" by (cases n) auto
    then show "parse_value n (json_stringify (JNum k) @ rest) = Some (json_norm (JNum k), rest)"
      using parse_value_number[OF \<open>delim rest\<close>, of m k] by (simp del: parse_value.simps)
  qed
next
  case (5 s)
  show ?case
  proof (intro impI allI)
    fix n rest assume "weight (JStr s) \<le> n"
    then obtain m where "n = Suc m" by (cases n) auto
    then show "parse_value n (json_stringify (JStr s) @ rest) = Some (json_norm (JStr s), rest)"
      using parse_value_string[of m s rest] by (simp del: parse_value.simps)
  qed
next
  case (6 vs)
  show ?case
  proof (intro impI allI)
    fix n rest assume w: "weight (JArr vs) \<le> n"
    then obtain m where n: "n = Suc m" and m: "welems vs \<le> m" by (cases n) auto
    show "parse_value n (json_stringify (JArr vs) @ rest) = Some (json_norm (JArr vs), rest)"
    proof (cases "vs = []")
      case True
      then show ?thesis using parse_value_array_empty[of m rest] by (simp add: n del: parse_value.simps)
    next
      case False
      let ?r = "commas (stringify_elements vs) @ CHR '']'' # rest"
      from elements_head[OF False, of "CHR '']'' # rest"]
      obtain c cs where c: "?r = c # cs" "\<not> is_ws c" "c \<noteq> CHR '']''" by blast
      from 6 False m have "parse_elements m ?r = Some (norm_elements vs, rest)" by blast
      with parse_value_array[OF c(2,3), of m cs] c(1)
      have "parse_value (Suc m) (CHR ''['' # ?r) = Some (JArr (norm_elements vs), rest)"
        by (simp del: parse_value.simps parse_elements.simps)
      then show ?thesis by (simp add: n del: parse_value.simps)
    qed
  qed
next
  case (7 ps)
  show ?case
  proof (intro impI allI)
    fix n rest assume w: "weight (JObj ps) \<le> n"
    then obtain m where n: "n = Suc m" and m: "wmembers ps \<le> m" by (cases n) auto
    show "parse_value n (json_stringify (JObj ps) @ rest) = Some (json_norm (JObj ps), rest)"
    proof (cases "stringify_members ps = []")
      case True
      moreover from True have "norm_members ps = []"
        by (induction ps) (auto split: if_splits)
      ultimately show ?thesis
        using parse_value_object_empty[of m rest] by (simp add: n del: parse_value.simps)
    next
      case False
      let ?r = "commas (stringify_members ps) @ CHR ''}'' # rest"
      from members_head[OF False, of "CHR ''}'' # rest"]
      obtain cs where c: "?r = dquote # cs" by blast
      from 7 False m have "parse_members m ?r = Some (norm_members ps, rest)" by blast
      with parse_value_object[of m cs] c
      have "parse_value (Suc m) (CHR ''{'' # ?r) = Some (JObj (norm_members ps), rest)"
        by (simp del: parse_value.simps parse_members.simps)
      then show ?thesis by (simp add: n del: parse_value.simps)
    qed
  qed
next
  case 8
  show ?case by simp
next
  case (9 v vs)
  show ?case
  proof (intro impI allI)
    fix n rest assume w: "welems (v # vs) \<le> n"
    then obtain m where n: "n = Suc m" and mv: "weight v \<le> m" and ms: "welems vs \<le> m"
      by (cases n) auto
    let ?e = "if v = JUndefined then ''null'' else json_stringify v"
    let ?x = "if v = JUndefined then JNull else json_norm v"
    have val: "parse_value m (?e @ tail) = Some (?x, tail)" if "delim tail" for tail
    proof (cases "v = JUndefined")
      case True
      from mv obtain m' where "m = Suc m'" by (cases m) (auto simp: True)
      with True show ?thesis using parse_value_null[of m' tail] by (simp del: parse_value.simps)
    next
      case False
      with 9(1) mv that show ?thesis by simp
    qed
    show "parse_elements n (commas (stringify_elements (v # vs)) @ CHR '']'' # rest) =
          Some (norm_elements (v # vs), rest)"
    proof (cases "vs = []")
      case True
      from val[of "CHR '']'' # rest"]
      have "parse_value m (?e @ CHR '']'' # rest) = Some (?x, CHR '']'' # rest)"
        by (simp add: delim_facts)
      from parse_elements_last[OF this] True show ?thesis
        by (simp add: n del: parse_elements.simps parse_value.simps)
    next
      case False
      let ?tail = "commas (stringify_elements vs) @ CHR '']'' # rest"
      from val[of "CHR '','' # ?tail"]
      have "parse_value m (?e @ CHR '','' # ?tail) = Some (?x, CHR '','' # ?tail)"
        by (simp add: delim_facts)
      from parse_elements_more[OF this]
      have "parse_elements (Suc m) (?e @ CHR '','' # ?tail) =
            map_option (apfst ((#) ?x)) (parse_elements m ?tail)" .
      moreover from 9(2) False ms have "parse_elements m ?tail = Some (norm_elements vs, rest)"
        by blast
      ultimately show ?thesis using False
        by (simp add: n commas_Cons stringify_elements_Nil
            del: parse_elements.simps parse_value.simps)
    qed
  qed
next
  case 10
  show ?case by simp
next
  case (11 k v ps)
  show ?case
  proof (cases "v = JUndefined")
    case True
    with 11(1) show ?thesis by simp
  next
    case False
    show ?thesis
    proof (intro impI allI)
      fix n rest assume w: "wmembers ((k, v) # ps) \<le> n"
      with False obtain m where n: "n = Suc m" and mv: "weight v \<le> m" and ms: "wmembers ps \<le> m"
        by (cases n) auto
      have val: "parse_value m (json_stringify v @ tail) = Some (json_norm v, tail)"
        if "delim tail" for tail
        using 11(2) False mv that by simp
      show "parse_members n (commas (stringify_members ((k, v) # ps)) @ CHR ''}'' # rest) =
            Some (norm_members ((k, v) # ps), rest)"
      proof (cases "stringify_members ps = []")
        case True
        then have nm: "norm_members ps = []"
          by (induction ps) (auto split: if_splits)
        from val[of "CHR ''}'' # rest"]
        have "parse_value m (json_stringify v @ CHR ''}'' # rest) =
              Some (json_norm v, CHR ''}'' # rest)"
          by (simp add: delim_facts)
        from parse_members_last[OF this, of k] True nm False show ?thesis
          by (simp add: n del: parse_members.simps parse_value.simps)
      next
        case nonempty: False
        let ?tail = "commas (stringify_members ps) @ CHR ''}'' # rest"
        from val[of "CHR '','' # ?tail"]
        have "parse_value m (json_stringify v @ CHR '','' # ?tail) =
              Some (json_norm v, CHR '','' # ?tail)"
          by (simp add: delim_facts)
        from parse_members_more[OF this, of k]
        have "parse_members (Suc m) (quote k @ CHR '':'' # json_stringify v @ CHR '','' # ?tail) =
              map_option (apfst ((#) (k, json_norm v))) (parse_members m ?tail)" .
        moreover from 11(3) False nonempty ms
        have "parse_members m ?tail = Some (norm_members ps, rest)" by blast
        ultimately show ?thesis using False nonempty
          by (simp add: n commas_Cons del: parse_members.simps parse_value.simps)
      qed
    qed
  qed
qed

text \<open>The length of the text is a sufficient bound, so \<open>json_parse\<close> after
  \<open>json_stringify\<close> is \<open>json_norm\<close>.\<close>

lemma length_commas_Cons:
  "length (commas (x # xs)) = length x + (if xs = [] then 0 else Suc (length (commas xs)))"
  by (simp add: commas_Cons)

lemma weight_le_length:
  "weight v \<le> length (json_stringify v)"
  "welems vs \<le> Suc (length (commas (stringify_elements vs)))"
  "wmembers ps \<le> Suc (length (commas (stringify_members ps)))"
proof (induction v and vs and ps rule: json_stringify_stringify_elements_stringify_members.induct)
  case (4 n)
  show ?case
    using string_of_nat_nonempty[of "nat n"] string_of_nat_nonempty[of "nat (- n)"]
    by (cases "string_of_nat (nat n)"; cases "string_of_nat (nat (- n))")
      (simp_all add: string_of_int_def)
next
  case (9 v vs)
  have "weight v \<le> length (if v = JUndefined then ''null'' else json_stringify v)"
    using 9(1) by simp
  with 9(2) show ?case
    by (simp add: length_commas_Cons stringify_elements_Nil del: commas.simps)
next
  case (11 k v ps)
  show ?case
  proof (cases "v = JUndefined")
    case True
    with 11(1) show ?thesis by simp
  next
    case False
    with 11(2,3) show ?thesis
      by (auto simp: length_commas_Cons quote_def)
  qed
qed (simp_all add: quote_def)

lemma json_parse_stringify:
  assumes "v \<noteq> JUndefined"
  shows "json_parse (json_stringify v) = Some (json_norm v)"
proof -
  have "weight v \<le> Suc (length (json_stringify v))"
    using weight_le_length(1)[of v] by simp
  with parse_stringify(1)[of v, rule_format, of "Suc (length (json_stringify v))" "[]"] assms
  have "parse_value (Suc (length (json_stringify v))) (json_stringify v @ []) = Some (json_norm v, [])"
    by (simp add: delim_facts del: parse_value.simps)
  then show ?thesis
    by (simp add: json_parse_def skip_ws_def del: parse_value.simps)
qed

lemma json_norm_value:
  "json_value v \<longrightarrow> json_norm v = v"
  "json_values vs \<longrightarrow> norm_elements vs = vs"
  "json_members ps \<longrightarrow> norm_members ps = ps"
  by (induction v and vs and ps rule: json_norm_norm_elements_norm_members.induct) auto

lemma json_stringify_nonempty: "json_stringify (JArr vs) \<noteq> []"
  by simp

lemma rehydrate_item_norm_plain:
  "rehydrate_item (json_norm (plain t)) = Inr (json_task t)"
  by (simp add: rehydrate_item_def plain_def json_task_def)

lemma norm_elements_plain: "norm_elements (map plain ts) = map (\<lambda>t. json_norm (plain t)) ts"
  by (induction ts) (simp_all add: plain_defined)

lemma rehydrate_all_norm_plain:
  "rehydrate_all (norm_elements (map plain ts)) = Inr (map json_task ts)"
  by (induction ts) (simp_all add: plain_defined rehydrate_item_norm_plain del: json_norm.simps)

lemma json_task_stable: "stable_task t \<Longrightarrow> json_task t = t"
  using json_norm_value(1)
  by (cases t) (auto simp: stable_task_def json_task_def Todo_def)

lemma load_after_save:
  "todos (loadFromStorage json_parse (fresh\<lparr>storage := storage (saveToStorage json_stringify s)\<rparr>)) =
   map json_task (todos s)"
proof -
  have "json_parse (json_stringify (serialize (todos s))) = Some (json_norm (serialize (todos s)))"
    by (rule json_parse_stringify) (simp add: serialize_def)
  then show ?thesis
    by (simp add: loadFromStorage_def try_rehydrate_def serialize_def rehydrate_all_norm_plain)
qed

text \<open>
  The same for any host functions that read back the written document as the reference
  codec does.
\<close>

lemma load_after_save_host:
  assumes "parse (stringify (serialize (todos s))) = Some (json_norm (serialize (todos s)))"
    and "stringify (serialize (todos s)) \<noteq> []"
  shows "todos (loadFromStorage parse (fresh\<lparr>storage := storage (saveToStorage stringify s)\<rparr>)) =
         map json_task (todos s)"
  using assms
  by (simp add: loadFromStorage_def try_rehydrate_def serialize_def rehydrate_all_norm_plain)

lemma task_typed_stable: "task_typed t \<Longrightarrow> stable_task t"
  by (auto simp: task_typed_iff stable_task_def)


subsection \<open>Stores whose tasks JSON reproduces\<close>

text \<open>
  The reference parser never yields a value that holds \<^verbatim>\<open>undefined\<close>, so every task that
  \<^verbatim>\<open>loadFromStorage\<close> builds has fields that are such values or are missing.
\<close>

lemma parse_value_cases:
  assumes "parse_value (Suc n) cs = Some (v, r)"
  shows "(\<exists>s. v = JStr s) \<or> v = JArr [] \<or> (\<exists>vs c. v = JArr vs \<and> parse_elements n c = Some (vs, r)) \<or>
         v = JObj [] \<or> (\<exists>ps c. v = JObj ps \<and> parse_members n c = Some (ps, r)) \<or>
         (\<exists>b. v = JBool b) \<or> v = JNull \<or> (\<exists>k. v = JNum k)"
proof (cases "skip_ws cs")
  case Nil
  with assms show ?thesis by simp
next
  case (Cons c rest)
  note sk = Cons
  show ?thesis
  proof (cases "c = dquote")
    case True
    with assms sk show ?thesis by auto
  next
    case nq: False
    show ?thesis
    proof (cases "c = CHR ''[''")
      case True
      with assms sk nq show ?thesis
        by (cases "skip_ws rest") (auto split: if_splits)
    next
      case nb: False
      show ?thesis
      proof (cases "c = CHR ''{''")
        case True
        with assms sk nq nb show ?thesis
          by (cases "skip_ws rest") (auto split: if_splits)
      next
        case False
        with assms sk nq nb show ?thesis
          by (auto split: if_splits)
      qed
    qed
  qed
qed

lemma parse_elements_cases:
  assumes "parse_elements (Suc n) cs = Some (vs, r)"
  shows "\<exists>v r1 vs'. parse_value n cs = Some (v, r1) \<and> vs = v # vs' \<and>
           (vs' = [] \<or> (\<exists>c. parse_elements n c = Some (vs', r)))"
proof (cases "parse_value n cs")
  case None
  with assms show ?thesis by simp
next
  case (Some p)
  obtain v r1 where p: "p = (v, r1)" by (cases p) auto
  from assms Some p show ?thesis
    by (cases "skip_ws r1") (auto split: if_splits)
qed

lemma parse_members_cases:
  assumes "parse_members (Suc n) cs = Some (ps, r)"
  shows "\<exists>k v c r3 ps'. parse_value n c = Some (v, r3) \<and> ps = (k, v) # ps' \<and>
           (ps' = [] \<or> (\<exists>c'. parse_members n c' = Some (ps', r)))"
proof (cases "skip_ws cs")
  case Nil
  with assms show ?thesis by simp
next
  case (Cons c rest)
  note sk = Cons
  show ?thesis
  proof (cases "parse_chars rest")
    case None
    with assms sk show ?thesis by (simp split: if_splits)
  next
    case (Some p)
    obtain k r1 where p: "p = (k, r1)" by (cases p) auto
    show ?thesis
    proof (cases "skip_ws r1")
      case Nil
      with assms sk Some p show ?thesis by (simp split: if_splits)
    next
      case (Cons c1 r2)
      note sk1 = Cons
      show ?thesis
      proof (cases "parse_value n r2")
        case None
        with assms sk Some p sk1 show ?thesis by (simp split: if_splits)
      next
        case pv: (Some q)
        obtain v r3 where q: "q = (v, r3)" by (cases q) auto
        from assms sk Some p sk1 pv q show ?thesis
          by (cases "skip_ws r3") (auto split: if_splits)
      qed
    qed
  qed
qed

lemma parsed_is_json_value:
  "(\<forall>cs v r. parse_value n cs = Some (v, r) \<longrightarrow> json_value v) \<and>
   (\<forall>cs vs r. parse_elements n cs = Some (vs, r) \<longrightarrow> json_values vs) \<and>
   (\<forall>cs ps r. parse_members n cs = Some (ps, r) \<longrightarrow> json_members ps)"
proof (induction n)
  case 0
  show ?case by simp
next
  case (Suc n)
  then have ihv: "\<And>cs v r. parse_value n cs = Some (v, r) \<Longrightarrow> json_value v"
    and ihe: "\<And>cs vs r. parse_elements n cs = Some (vs, r) \<Longrightarrow> json_values vs"
    and ihm: "\<And>cs ps r. parse_members n cs = Some (ps, r) \<Longrightarrow> json_members ps"
    by blast+
  have v: "json_value v" if "parse_value (Suc n) cs = Some (v, r)" for cs v r
    using parse_value_cases[OF that] by (auto dest: ihe ihm)
  have e: "json_values vs" if "parse_elements (Suc n) cs = Some (vs, r)" for cs vs r
    using parse_elements_cases[OF that] by (auto dest: ihv ihe)
  have m: "json_members ps" if "parse_members (Suc n) cs = Some (ps, r)" for cs ps r
    using parse_members_cases[OF that] by (auto dest: ihv ihm)
  from v e m show ?case by blast
qed

lemma json_parse_value:
  assumes "json_parse raw = Some v"
  shows "json_value v"
proof -
  from assms obtain r where "parse_value (Suc (length raw)) raw = Some (v, r)"
    by (auto simp: json_parse_def split: option.splits if_splits simp del: parse_value.simps)
  with parsed_is_json_value[of "Suc (length raw)"] show ?thesis by blast
qed

lemma get_prop_json_value:
  assumes "json_value item" and "get_prop item k = Inr v"
  shows "v = JUndefined \<or> json_value v"
proof (cases item)
  case (JObj ps)
  have "json_value x" if "json_members qs" "map_of qs k = Some x" for qs x
    using that by (induction qs) (auto split: if_splits)
  moreover have "json_members (rev qs)" if "json_members qs" for qs
  proof -
    have app: "json_members (xs @ ys) \<longleftrightarrow> json_members xs \<and> json_members ys" for xs ys
      by (induction xs) auto
    from that show ?thesis by (induction qs) (auto simp: app)
  qed
  ultimately show ?thesis
    using assms JObj by (cases "map_of (rev ps) k") auto
qed (use assms in auto)

lemma rehydrate_item_stable:
  assumes "json_value item" and "rehydrate_item item = Inr t"
  shows "stable_task t"
proof -
  from assms(2) obtain i x c where g: "get_prop item ''id'' = Inr i"
    "get_prop item ''text'' = Inr x" "get_prop item ''completed'' = Inr c" and t: "t = Todo i x c"
    by (auto simp: rehydrate_item_def split: sum.splits)
  from get_prop_json_value[OF assms(1)] g t show ?thesis
    by (auto simp: stable_task_def Todo_def)
qed

lemma rehydrate_all_stable:
  "json_values items \<Longrightarrow> rehydrate_all items = Inr ts \<Longrightarrow> list_all stable_task ts"
  by (induction items arbitrary: ts) (auto split: sum.splits dest: rehydrate_item_stable)

text \<open>Whatever the slot holds, the loaded tasks come back unchanged from a round trip.\<close>

lemma stable_load: "list_all stable_task (todos (loadFromStorage json_parse s))"
proof (cases "storage s")
  case None
  then show ?thesis by (simp add: loadFromStorage_def)
next
  case (Some raw)
  show ?thesis
  proof (cases "json_parse raw")
    case None
    with Some show ?thesis by (simp add: loadFromStorage_def try_rehydrate_def)
  next
    case (Some data)
    from json_parse_value[OF Some] rehydrate_all_stable
    have "list_all stable_task ts" if "data = JArr items" "rehydrate_all items = Inr ts" for items ts
      using that by auto
    with Some \<open>storage s = Some raw\<close> show ?thesis
      by (auto simp: loadFromStorage_def try_rehydrate_def split: jsval.splits sum.splits)
  qed
qed

lemma stable_Todo: "x = JUndefined \<or> json_value x \<Longrightarrow> stable_task (Todo (new_id now rnd) x JUndefined)"
  by (auto simp: stable_task_def Todo_def new_id_def)

lemma stable_toggle: "stable_task t \<Longrightarrow> stable_task (toggle t)"
  by (auto simp: stable_task_def toggle_def)

lemma stable_setText: "x = JUndefined \<or> json_value x \<Longrightarrow> stable_task t \<Longrightarrow> stable_task (setText x t)"
  by (auto simp: stable_task_def setText_def)

text \<open>The operations keep them so, when the texts they are given are values that JSON
  reproduces or are missing.\<close>

lemma stable_preserved:
  assumes "list_all stable_task (todos s)" and "x = JUndefined \<or> json_value x"
  shows "list_all stable_task (todos (snd (addTodo st now rnd x s)))"
    and "list_all stable_task (todos (editTodo st i x s))"
    and "list_all stable_task (todos (toggleTodo st i s))"
    and "list_all stable_task (todos (deleteTodo st i s))"
    and "list_all stable_task (todos (clearCompleted st s))"
    and "list_all stable_task (todos (reorderTodos st d t s))"
proof -
  show "list_all stable_task (todos (snd (addTodo st now rnd x s)))"
    using assms by (simp add: addTodo_def Let_def stable_Todo)
  show "list_all stable_task (todos (editTodo st i x s))"
    using assms
    by (simp add: editTodo_def list_all_update_found stable_setText split: option.splits)
  show "list_all stable_task (todos (toggleTodo st i s))"
    using assms
    by (simp add: toggleTodo_def list_all_update_found stable_toggle split: option.splits)
  show "list_all stable_task (todos (deleteTodo st i s))"
    using assms by (simp add: deleteTodo_def list_all_splice_out split: option.splits)
  show "list_all stable_task (todos (clearCompleted st s))"
    using assms by (simp add: clearCompleted_def list_all_iff)
  show "list_all stable_task (todos (reorderTodos st d t s))"
  proof -
    have "list_all stable_task (splice_in p (todos s ! di) (splice_out di (todos s)))"
      if "findIndex (\<lambda>x. id_of x = d) (todos s) = Some di" for p di
    proof -
      from findIndex_SomeD[OF that] have "todos s ! di \<in> set (todos s)" by simp
      with assms have "stable_task (todos s ! di)" by (simp add: list_all_iff)
      with assms show ?thesis by (simp add: list_all_splice_in list_all_splice_out)
    qed
    with assms show ?thesis
      by (simp add: reorderTodos_def Let_def split: option.splits)
  qed
qed

text \<open>
  So a store that was loaded, and then driven by operations with such texts, is reproduced
  by saving and loading.
\<close>

lemma load_save_load:
  "todos (loadFromStorage json_parse
     (fresh\<lparr>storage := storage (saveToStorage json_stringify (loadFromStorage json_parse s))\<rparr>)) =
   todos (loadFromStorage json_parse s)"
proof -
  have "list_all (\<lambda>t. json_task t = t) (todos (loadFromStorage json_parse s))"
    using stable_load[of s] by (simp add: list_all_iff json_task_stable)
  then have "map json_task (todos (loadFromStorage json_parse s)) = todos (loadFromStorage json_parse s)"
    by (simp add: list_all_iff map_idI)
  then show ?thesis by (simp only: load_after_save)
qed


subsection \<open>The example stores, evaluated\<close>

lemma milk_dog_todos:
  "todos milk_dog_store =
     [\<lparr>id_of = JStr ''17000000000004fzyo'', text_of = JStr ''buy milk'', completed = JBool False\<rparr>,
      \<lparr>id_of = JStr ''1700000000001k3x9q'', text_of = JStr ''walk dog'', completed = JBool True\<rparr>]"
  by (simp add: milk_dog_store_def store_simps)

lemma abc_todos:
  "todos abc_store =
     [\<lparr>id_of = JStr ''a'', text_of = JStr ''one'', completed = JBool False\<rparr>,
      \<lparr>id_of = JStr ''b'', text_of = JStr ''two'', completed = JBool True\<rparr>,
      \<lparr>id_of = JStr ''c'', text_of = JStr ''three'', completed = JBool False\<rparr>]"
  by (simp add: abc_store_def Todo_def)

section \<open>The claims\<close>

subsection \<open>Re-ordering\<close>

text \<open>
  Claim C1. For two different ids that both occur in the array, \<^verbatim>\<open>reorderTodos\<close> moves
  the dragged task (the first task with \<open>draggedId\<close>) so that it stands immediately
  before the target task (the first task with \<open>targetId\<close>), and the other tasks keep
  their order: without the dragged task, the array is what it was without it before.
\<close>

theorem reorder_places_dragged_before_target:
  assumes "draggedId \<noteq> targetId"
    and "find (\<lambda>x. id_of x = draggedId) (todos s) = Some dragged"
    and "find (\<lambda>x. id_of x = targetId) (todos s) = Some target"
  shows "\<exists>us vs.
           todos (reorderTodos stringify draggedId targetId s) = us @ dragged # target # vs \<and>
           us @ target # vs = remove1 dragged (todos s)"
proof -
  let ?xs = "todos s"
  from assms(2) obtain di where di: "findIndex (\<lambda>x. id_of x = draggedId) ?xs = Some di"
    and dragged: "?xs ! di = dragged"
    by (auto simp: find_findIndex)
  from assms(3) obtain ti where ti: "findIndex (\<lambda>x. id_of x = targetId) ?xs = Some ti"
    and target: "?xs ! ti = target"
    by (auto simp: find_findIndex)
  note D = findIndex_SomeD[OF di] and T = findIndex_SomeD[OF ti]
  from D T assms(1) have ne: "di \<noteq> ti" by auto
  let ?r = "splice_out di ?xs"
  let ?p = "if di < ti then ti - 1 else ti"
  from D T ne have p: "?p < length ?r" and rp: "?r ! ?p = ?xs ! ti"
    using target_after_removal[of di ?xs ti] by simp_all
  have res: "todos (reorderTodos stringify draggedId targetId s) =
             take ?p ?r @ dragged # target # drop (Suc ?p) ?r"
    using reorderTodos_found[OF assms(1) di ti] splice_in_nth_split[OF p] rp dragged target
    by simp
  from D have "\<forall>j<di. ?xs ! j \<noteq> ?xs ! di" by auto
  with D have "remove1 (?xs ! di) ?xs = ?r" by (simp add: remove1_first)
  moreover have "take ?p ?r @ target # drop (Suc ?p) ?r = ?r"
    using id_take_nth_drop[OF p] rp target by simp
  ultimately have "take ?p ?r @ target # drop (Suc ?p) ?r = remove1 dragged ?xs"
    using dragged by simp
  with res show ?thesis by blast
qed

text \<open>In the store \<open>[a, b, c]\<close>, dragging \<open>a\<close> onto \<open>c\<close> gives \<open>[b, a, c]\<close>, and dragging
  \<open>c\<close> onto \<open>a\<close> gives \<open>[c, a, b]\<close>.\<close>

theorem reorder_places_dragged_before_target_witness:
  "map id_of (todos (reorderTodos json_stringify (JStr ''a'') (JStr ''c'') abc_store)) =
     [JStr ''b'', JStr ''a'', JStr ''c''] \<and>
   map id_of (todos (reorderTodos json_stringify (JStr ''c'') (JStr ''a'') abc_store)) =
     [JStr ''c'', JStr ''a'', JStr ''b'']"
proof -
  let ?a = "\<lparr>id_of = JStr ''a'', text_of = JStr ''one'', completed = JBool False\<rparr>"
  let ?b = "\<lparr>id_of = JStr ''b'', text_of = JStr ''two'', completed = JBool True\<rparr>"
  let ?c = "\<lparr>id_of = JStr ''c'', text_of = JStr ''three'', completed = JBool False\<rparr>"
  have ne: "JStr ''a'' \<noteq> JStr ''c''" "JStr ''c'' \<noteq> JStr ''a''" by simp_all
  have fa: "find (\<lambda>x. id_of x = JStr ''a'') (todos abc_store) = Some ?a"
    and fc: "find (\<lambda>x. id_of x = JStr ''c'') (todos abc_store) = Some ?c"
    by (simp_all add: abc_todos)
  from reorder_places_dragged_before_target[OF ne(1) fa fc, of json_stringify]
  obtain us vs where 1:
    "todos (reorderTodos json_stringify (JStr ''a'') (JStr ''c'') abc_store) = us @ ?a # ?c # vs"
    "us @ ?c # vs = remove1 ?a (todos abc_store)"
    by blast
  from 1(2) have "us @ ?c # vs = [?b] @ ?c # []"
    by (simp add: abc_todos)
  then have "us = [?b] \<and> vs = []"
    by (auto simp: append_eq_append_conv2 append_eq_Cons_conv Cons_eq_append_conv)
  with 1(1) have A:
    "map id_of (todos (reorderTodos json_stringify (JStr ''a'') (JStr ''c'') abc_store)) =
       [JStr ''b'', JStr ''a'', JStr ''c'']"
    by simp
  from reorder_places_dragged_before_target[OF ne(2) fc fa, of json_stringify]
  obtain us' vs' where 2:
    "todos (reorderTodos json_stringify (JStr ''c'') (JStr ''a'') abc_store) = us' @ ?c # ?a # vs'"
    "us' @ ?a # vs' = remove1 ?c (todos abc_store)"
    by blast
  from 2(2) have "us' @ ?a # vs' = [] @ ?a # [?b]"
    by (simp add: abc_todos)
  then have "us' = [] \<and> vs' = [?b]"
    by (auto simp: append_eq_append_conv2 append_eq_Cons_conv Cons_eq_append_conv)
  with 2(1) have B:
    "map id_of (todos (reorderTodos json_stringify (JStr ''c'') (JStr ''a'') abc_store)) =
       [JStr ''c'', JStr ''a'', JStr ''b'']"
    by simp
  from A B show ?thesis by simp
qed

text \<open>
  Claim C2. In the scenario of the specification the array is \<open>[milk, dog]\<close>. The claim
  that \<^verbatim>\<open>reorderTodos(milkId, dogId)\<close> produces \<open>[dog, milk]\<close> fails: the milk is
  taken out at index 0, the dog is then at index 0, and the milk is inserted there again,
  before the dog. The order stays \<open>[milk, dog]\<close>.
\<close>

theorem scenario_reorder_counterexample:
  "map text_of (todos (reorderTodos json_stringify (JStr ''17000000000004fzyo'')
        (JStr ''1700000000001k3x9q'') milk_dog_store)) = [JStr ''buy milk'', JStr ''walk dog''] \<and>
   map text_of (todos (reorderTodos json_stringify (JStr ''17000000000004fzyo'')
        (JStr ''1700000000001k3x9q'') milk_dog_store)) \<noteq> [JStr ''walk dog'', JStr ''buy milk'']"
  by (simp add: reorderTodos_def milk_dog_todos splice_in_def splice_out_def)

text \<open>
  Claim C2, amended. With two tasks \<open>[a, b]\<close> of different ids, dragging the first onto
  the second leaves \<open>[a, b]\<close>; it is dragging the second onto the first that gives
  \<open>[b, a]\<close>.
\<close>

theorem reorder_two_items:
  assumes "todos s = [a, b]" and "id_of a \<noteq> id_of b"
  shows "todos (reorderTodos stringify (id_of a) (id_of b) s) = [a, b] \<and>
         todos (reorderTodos stringify (id_of b) (id_of a) s) = [b, a]"
  using assms by (simp add: reorderTodos_def splice_in_def splice_out_def)

theorem reorder_two_items_witness:
  "map text_of (todos (reorderTodos json_stringify (JStr ''17000000000004fzyo'')
        (JStr ''1700000000001k3x9q'') milk_dog_store)) = [JStr ''buy milk'', JStr ''walk dog''] \<and>
   map text_of (todos (reorderTodos json_stringify (JStr ''1700000000001k3x9q'')
        (JStr ''17000000000004fzyo'') milk_dog_store)) = [JStr ''walk dog'', JStr ''buy milk'']"
  using reorder_two_items[OF milk_dog_todos, of json_stringify] by simp

subsection \<open>Filtering\<close>

text \<open>
  Claim C3. The claim that, for every store, \<^verbatim>\<open>filterTodos('active')\<close> is exactly the
  tasks with \<open>completed = false\<close> and \<^verbatim>\<open>filterTodos('completed')\<close> exactly those with
  \<open>completed = true\<close> fails on a store whose flags are not booleans, which
  \<^verbatim>\<open>loadFromStorage\<close> builds from a slot that holds such flags: the filters test
  \<^verbatim>\<open>!t.completed\<close> and \<^verbatim>\<open>t.completed\<close>. A task with the flag \<open>1\<close> is returned as
  completed and a task with the flag \<open>0\<close> as active.
\<close>

theorem filter_truthiness_counterexample:
  \<open>todos (loadFromStorage json_parse
      \<lparr>todos = [], storage = Some ''[{"id":"a","text":"b","completed":1},{"id":"c","text":"d","completed":0}]''\<rparr>) =
     [\<lparr>id_of = JStr ''a'', text_of = JStr ''b'', completed = JNum 1\<rparr>,
      \<lparr>id_of = JStr ''c'', text_of = JStr ''d'', completed = JNum 0\<rparr>] \<and>
   fst (filterTodos (JStr ''completed'') (loadFromStorage json_parse
      \<lparr>todos = [], storage = Some ''[{"id":"a","text":"b","completed":1},{"id":"c","text":"d","completed":0}]''\<rparr>)) =
     [\<lparr>id_of = JStr ''a'', text_of = JStr ''b'', completed = JNum 1\<rparr>] \<and>
   fst (filterTodos (JStr ''active'') (loadFromStorage json_parse
      \<lparr>todos = [], storage = Some ''[{"id":"a","text":"b","completed":1},{"id":"c","text":"d","completed":0}]''\<rparr>)) =
     [\<lparr>id_of = JStr ''c'', text_of = JStr ''d'', completed = JNum 0\<rparr>] \<and>
   JNum 1 \<noteq> JBool True \<and> JNum 0 \<noteq> JBool False\<close>
proof -
  have p: \<open>json_parse ''[{"id":"a","text":"b","completed":1},{"id":"c","text":"d","completed":0}]'' =
    Some (JArr [JObj [(''id'', JStr ''a''), (''text'', JStr ''b''), (''completed'', JNum 1)],
                JObj [(''id'', JStr ''c''), (''text'', JStr ''d''), (''completed'', JNum 0)]])\<close>
    by (simp add: codec_simps)
  show ?thesis
    by (simp add: loadFromStorage_def try_rehydrate_def rehydrate_item_def Todo_def p filterTodos_def)
qed

text \<open>
  Claim C3, amended. For every store whose completed flags are booleans,
  \<^verbatim>\<open>filterTodos('active')\<close> is exactly the tasks with \<open>completed = false\<close> and
  \<^verbatim>\<open>filterTodos('completed')\<close> exactly those with \<open>completed = true\<close>, both in the order
  of the array (\<open>filter\<close> keeps the order). For every store, the two filters select the
  tasks whose flag is falsy and truthy, \<^verbatim>\<open>'all'\<close> and every other mode give the whole
  array, and the store is left as it was.
\<close>

theorem filterTodos_correct:
  "((\<forall>t\<in>set (todos s). \<exists>b. completed t = JBool b) \<longrightarrow>
      fst (filterTodos (JStr ''active'') s) = filter (\<lambda>t. completed t = JBool False) (todos s) \<and>
      fst (filterTodos (JStr ''completed'') s) = filter (\<lambda>t. completed t = JBool True) (todos s)) \<and>
   fst (filterTodos (JStr ''active'') s) = filter (\<lambda>t. \<not> truthy (completed t)) (todos s) \<and>
   fst (filterTodos (JStr ''completed'') s) = filter (\<lambda>t. truthy (completed t)) (todos s) \<and>
   (mode \<noteq> JStr ''active'' \<and> mode \<noteq> JStr ''completed'' \<longrightarrow> fst (filterTodos mode s) = todos s) \<and>
   fst (filterTodos (JStr ''all'') s) = todos s \<and>
   snd (filterTodos mode s) = s"
proof -
  have a: "filter (\<lambda>t. \<not> truthy (completed t)) (todos s) =
           filter (\<lambda>t. completed t = JBool False) (todos s)"
    if "\<forall>t\<in>set (todos s). \<exists>b. completed t = JBool b"
    using that by (intro filter_cong) auto
  have c: "filter (\<lambda>t. truthy (completed t)) (todos s) =
           filter (\<lambda>t. completed t = JBool True) (todos s)"
    if "\<forall>t\<in>set (todos s). \<exists>b. completed t = JBool b"
    using that by (intro filter_cong) auto
  show ?thesis using a c by (simp add: filterTodos_def)
qed

theorem filterTodos_correct_witness:
  "map id_of (fst (filterTodos (JStr ''active'') abc_store)) = [JStr ''a'', JStr ''c''] \<and>
   map id_of (fst (filterTodos (JStr ''completed'') abc_store)) = [JStr ''b''] \<and>
   fst (filterTodos (JStr ''done'') abc_store) = todos abc_store \<and>
   fst (filterTodos (JStr ''all'') abc_store) = todos abc_store \<and>
   snd (filterTodos (JStr ''done'') abc_store) = abc_store"
proof -
  have "\<forall>t\<in>set (todos abc_store). \<exists>b. completed t = JBool b"
    by (auto simp: abc_todos)
  with filterTodos_correct[of abc_store "JStr ''done''"] show ?thesis
    by (simp add: abc_todos)
qed

subsection \<open>Write-through persistence\<close>

text \<open>
  Claim C4. The claim that the slot holds the serialization of the array after any
  mutating operation fails for a call that finds nothing to change: it returns before
  \<^verbatim>\<open>saveToStorage\<close>. After loading a slot that holds the text \<open>garbage\<close>, the array is
  empty; \<^verbatim>\<open>toggleTodo\<close> of an unknown id then leaves the slot at \<open>garbage\<close>, while the
  serialization of the empty array is \<open>[]\<close>.
\<close>

theorem stale_slot_counterexample:
  \<open>todos (toggleTodo json_stringify (JStr ''x'')
      (loadFromStorage json_parse \<lparr>todos = [], storage = Some ''garbage''\<rparr>)) = [] \<and>
   storage (toggleTodo json_stringify (JStr ''x'')
      (loadFromStorage json_parse \<lparr>todos = [], storage = Some ''garbage''\<rparr>)) = Some ''garbage'' \<and>
   json_stringify (serialize []) = ''[]'' \<and>
   \<not> persisted json_stringify (toggleTodo json_stringify (JStr ''x'')
      (loadFromStorage json_parse \<lparr>todos = [], storage = Some ''garbage''\<rparr>))\<close>
  by (simp add: persisted_def store_simps codec_simps)

text \<open>
  Claim C4, amended. After \<^verbatim>\<open>addTodo\<close> and \<^verbatim>\<open>clearCompleted\<close>, and after
  \<^verbatim>\<open>editTodo\<close>, \<^verbatim>\<open>toggleTodo\<close> and \<^verbatim>\<open>deleteTodo\<close> of an id that occurs and
  \<^verbatim>\<open>reorderTodos\<close> of two different ids that both occur, the slot holds exactly the
  serialization of the array. A call that finds nothing writes nothing, so after any of
  these operations the slot matches the array whenever it did before.
\<close>

theorem write_through:
  "persisted st (snd (addTodo st now rnd txt s)) \<and>
   persisted st (clearCompleted st s) \<and>
   (i \<in> id_of ` set (todos s) \<longrightarrow>
      persisted st (editTodo st i newText s) \<and>
      persisted st (toggleTodo st i s) \<and>
      persisted st (deleteTodo st i s)) \<and>
   (d \<noteq> t \<and> d \<in> id_of ` set (todos s) \<and> t \<in> id_of ` set (todos s) \<longrightarrow>
      persisted st (reorderTodos st d t s)) \<and>
   (persisted st s \<longrightarrow>
      persisted st (editTodo st i newText s) \<and>
      persisted st (toggleTodo st i s) \<and>
      persisted st (deleteTodo st i s) \<and>
      persisted st (reorderTodos st d t s))"
proof -
  have "persisted st (snd (addTodo st now rnd txt s))"
    by (simp add: addTodo_def Let_def persisted_saveToStorage)
  moreover have "persisted st (clearCompleted st s)"
    by (simp add: clearCompleted_def persisted_saveToStorage)
  moreover have "persisted st (editTodo st i newText s)"
    if "i \<in> id_of ` set (todos s) \<or> persisted st s"
    using that editTodo_cases[of st i newText s] by (auto simp: persisted_saveToStorage)
  moreover have "persisted st (toggleTodo st i s)"
    if "i \<in> id_of ` set (todos s) \<or> persisted st s"
    using that toggleTodo_cases[of st i s] by (auto simp: persisted_saveToStorage)
  moreover have "persisted st (deleteTodo st i s)"
    if "i \<in> id_of ` set (todos s) \<or> persisted st s"
    using that deleteTodo_cases[of st i s] by (auto simp: persisted_saveToStorage)
  moreover have "persisted st (reorderTodos st d t s)"
    if "d \<noteq> t \<and> d \<in> id_of ` set (todos s) \<and> t \<in> id_of ` set (todos s) \<or> persisted st s"
    using that reorderTodos_cases[of st d t s] by (auto simp: persisted_saveToStorage)
  ultimately show ?thesis by blast
qed

text \<open>
  In the store \<open>[a, b, c]\<close>, whose slot is empty, the operations that find their ids
  write the slot; after that, an operation on the unknown id \<open>z\<close> keeps it matching.
\<close>

theorem write_through_witness:
  "persisted json_stringify (toggleTodo json_stringify (JStr ''a'') abc_store) \<and>
   persisted json_stringify (deleteTodo json_stringify (JStr ''a'') abc_store) \<and>
   persisted json_stringify (reorderTodos json_stringify (JStr ''a'') (JStr ''c'') abc_store) \<and>
   persisted json_stringify
     (editTodo json_stringify (JStr ''z'') (JStr ''x'') (clearCompleted json_stringify abc_store))"
proof -
  have a: "JStr ''a'' \<in> id_of ` set (todos abc_store)"
    and c: "JStr ''c'' \<in> id_of ` set (todos abc_store)"
    and ne: "JStr ''a'' \<noteq> JStr ''c''"
    by (simp_all add: abc_todos)
  from write_through[of json_stringify 0 "[]" JNull abc_store "JStr ''a''" "JStr ''x''"
      "JStr ''a''" "JStr ''c''"] a c ne
  have 1: "persisted json_stringify (toggleTodo json_stringify (JStr ''a'') abc_store)"
    and 2: "persisted json_stringify (deleteTodo json_stringify (JStr ''a'') abc_store)"
    and 3: "persisted json_stringify
              (reorderTodos json_stringify (JStr ''a'') (JStr ''c'') abc_store)"
    and 4: "persisted json_stringify (clearCompleted json_stringify abc_store)"
    by blast+
  from write_through[of json_stringify 0 "[]" JNull "clearCompleted json_stringify abc_store"
      "JStr ''z'' " "JStr ''x''" "JStr ''a''" "JStr ''c''"] 4
  have "persisted json_stringify
          (editTodo json_stringify (JStr ''z'') (JStr ''x'') (clearCompleted json_stringify abc_store))"
    by blast
  with 1 2 3 show ?thesis by blast
qed

subsection \<open>Persistence round trip\<close>

text \<open>
  Claim C5. The claim that \<^verbatim>\<open>saveToStorage\<close> followed by \<^verbatim>\<open>loadFromStorage\<close> gives
  back the array for every store state fails where a field holds a value that JSON does
  not reproduce. \<^verbatim>\<open>addTodo([undefined])\<close> stores the text \<^verbatim>\<open>[undefined]\<close>; it is written
  as \<^verbatim>\<open>[null]\<close> and loaded as \<^verbatim>\<open>[null]\<close>. The host functions are the reference codec
  here and below.
\<close>

theorem json_drops_undefined_counterexample:
  "todos (snd (addTodo json_stringify 1700000000000 ''0.4fzyo82mvyr'' (JArr [JUndefined]) empty_store)) =
     [\<lparr>id_of = JStr ''17000000000004fzyo'', text_of = JArr [JUndefined], completed = JBool False\<rparr>] \<and>
   todos (loadFromStorage json_parse
      (empty_store\<lparr>storage := storage (saveToStorage json_stringify
         (snd (addTodo json_stringify 1700000000000 ''0.4fzyo82mvyr'' (JArr [JUndefined]) empty_store)))\<rparr>)) =
     [\<lparr>id_of = JStr ''17000000000004fzyo'', text_of = JArr [JNull], completed = JBool False\<rparr>] \<and>
   JArr [JUndefined] \<noteq> JArr [JNull]"
  by (simp add: store_simps codec_simps)

text \<open>
  Claim C5, amended. \<^verbatim>\<open>saveToStorage\<close> followed by \<^verbatim>\<open>loadFromStorage\<close> on any store
  that sees the same slot gives the array with every field as JSON renders it. It gives
  back the array itself (same ids, texts and flags, in the same order) for every store
  whose fields are values that JSON reproduces: strings, numbers, booleans, \<^verbatim>\<open>null\<close>,
  and arrays and objects of such values, where an id or a text may also be
  \<^verbatim>\<open>undefined\<close>.
\<close>

theorem persist_load_roundtrip:
  "todos (loadFromStorage json_parse (fresh\<lparr>storage := storage (saveToStorage json_stringify s)\<rparr>)) =
     map json_task (todos s) \<and>
   (list_all stable_task (todos s) \<longrightarrow>
    todos (loadFromStorage json_parse (fresh\<lparr>storage := storage (saveToStorage json_stringify s)\<rparr>)) =
      todos s)"
proof -
  have "map json_task (todos s) = todos s" if "list_all stable_task (todos s)"
    using that by (induction "todos s" arbitrary: s) (auto simp: json_task_stable list_all_iff intro: map_idI)
  with load_after_save[where fresh = fresh and s = s] show ?thesis by simp
qed

text \<open>The scenario store comes back as it was, and so does the store loaded from the
  text \<^verbatim>\<open>[{}]\<close>, whose task has neither id nor text.\<close>

theorem persist_load_roundtrip_witness:
  \<open>todos (loadFromStorage json_parse
      (empty_store\<lparr>storage := storage (saveToStorage json_stringify milk_dog_store)\<rparr>)) =
   [\<lparr>id_of = JStr ''17000000000004fzyo'', text_of = JStr ''buy milk'', completed = JBool False\<rparr>,
    \<lparr>id_of = JStr ''1700000000001k3x9q'', text_of = JStr ''walk dog'', completed = JBool True\<rparr>] \<and>
   todos (loadFromStorage json_parse
      (empty_store\<lparr>storage := storage (saveToStorage json_stringify
         (loadFromStorage json_parse \<lparr>todos = [], storage = Some ''[{}]''\<rparr>))\<rparr>)) =
   [\<lparr>id_of = JUndefined, text_of = JUndefined, completed = JBool False\<rparr>]\<close>
proof -
  have 1: "list_all stable_task (todos milk_dog_store)"
    by (simp add: milk_dog_todos stable_task_def)
  have l: \<open>todos (loadFromStorage json_parse \<lparr>todos = [], storage = Some ''[{}]''\<rparr>) =
           [\<lparr>id_of = JUndefined, text_of = JUndefined, completed = JBool False\<rparr>]\<close>
    by (simp add: store_simps codec_simps)
  then have 2: \<open>list_all stable_task
                 (todos (loadFromStorage json_parse \<lparr>todos = [], storage = Some ''[{}]''\<rparr>))\<close>
    by (simp add: stable_task_def)
  from persist_load_roundtrip[where s = milk_dog_store and fresh = empty_store] 1
  have A: "todos (loadFromStorage json_parse
      (empty_store\<lparr>storage := storage (saveToStorage json_stringify milk_dog_store)\<rparr>)) =
      todos milk_dog_store"
    by blast
  from persist_load_roundtrip[where
      s = \<open>loadFromStorage json_parse \<lparr>todos = [], storage = Some ''[{}]''\<rparr>\<close>
      and fresh = empty_store] 2
  have B: \<open>todos (loadFromStorage json_parse
      (empty_store\<lparr>storage := storage (saveToStorage json_stringify
         (loadFromStorage json_parse \<lparr>todos = [], storage = Some ''[{}]''\<rparr>))\<rparr>)) =
      todos (loadFromStorage json_parse \<lparr>todos = [], storage = Some ''[{}]''\<rparr>)\<close>
    by blast
  from A B show ?thesis by (simp only: milk_dog_todos l)
qed

subsection \<open>Loading\<close>

text \<open>
  Claim C6. The claim that \<^verbatim>\<open>loadFromStorage\<close> empties the array whenever the stored
  value is not an array of objects with exactly \<^verbatim>\<open>id\<close>, \<^verbatim>\<open>text\<close> and \<^verbatim>\<open>completed\<close>
  fails: the code never looks at the shape. The text \<^verbatim>\<open>[{}]\<close> parses, is not of
  the specified shape, and is loaded as one task without id and text.
\<close>

theorem load_unvalidated_counterexample:
  \<open>json_parse ''[{}]'' = Some (JArr [JObj []]) \<and>
   \<not> spec_shape (JArr [JObj []]) \<and>
   todos (loadFromStorage json_parse \<lparr>todos = [], storage = Some ''[{}]''\<rparr>) =
     [\<lparr>id_of = JUndefined, text_of = JUndefined, completed = JBool False\<rparr>]\<close>
  by (simp add: store_simps codec_simps spec_shape_def spec_task_shape_def)

text \<open>
  Claim C6, amended. The array is empty after \<^verbatim>\<open>loadFromStorage\<close> when the key is
  absent, the value is the empty text, the value is not JSON, the JSON value is not an
  array, or the array contains \<^verbatim>\<open>null\<close>. Every other array is loaded element by
  element, whatever its elements are. The slot is never written, and no error escapes:
  the handler covers the whole \<^verbatim>\<open>try\<close> block, so the function is total.
\<close>

theorem load_cases:
  "(storage s = None \<or> storage s = Some [] \<longrightarrow> todos (loadFromStorage parse s) = []) \<and>
   (storage s = Some raw \<and> parse raw = None \<longrightarrow> todos (loadFromStorage parse s) = []) \<and>
   (storage s = Some raw \<and> parse raw = Some data \<and> (\<forall>items. data \<noteq> JArr items) \<longrightarrow>
      todos (loadFromStorage parse s) = []) \<and>
   (storage s = Some raw \<and> parse raw = Some (JArr items) \<and>
      (JNull \<in> set items \<or> JUndefined \<in> set items) \<longrightarrow>
      todos (loadFromStorage parse s) = []) \<and>
   (storage s = Some raw \<and> raw \<noteq> [] \<and> parse raw = Some (JArr items) \<and>
      JNull \<notin> set items \<and> JUndefined \<notin> set items \<longrightarrow>
      map Inr (todos (loadFromStorage parse s)) = map rehydrate_item items) \<and>
   storage (loadFromStorage parse s) = storage s"
proof -
  have 1: "storage s = None \<or> storage s = Some [] \<longrightarrow> todos (loadFromStorage parse s) = []"
    by (auto simp: loadFromStorage_def)
  have 2: "storage s = Some raw \<and> parse raw = None \<longrightarrow> todos (loadFromStorage parse s) = []"
    by (simp add: loadFromStorage_def try_rehydrate_def)
  have 3: "storage s = Some raw \<and> parse raw = Some data \<and> (\<forall>items. data \<noteq> JArr items) \<longrightarrow>
      todos (loadFromStorage parse s) = []"
    by (cases data) (simp_all add: loadFromStorage_def try_rehydrate_def)
  have 4: "storage s = Some raw \<and> parse raw = Some (JArr items) \<and>
      (JNull \<in> set items \<or> JUndefined \<in> set items) \<longrightarrow>
      todos (loadFromStorage parse s) = []"
    using rehydrate_all_Inl_iff[of items]
    by (auto simp: loadFromStorage_def try_rehydrate_def)
  have 5: "storage s = Some raw \<and> raw \<noteq> [] \<and> parse raw = Some (JArr items) \<and>
      JNull \<notin> set items \<and> JUndefined \<notin> set items \<longrightarrow>
      map Inr (todos (loadFromStorage parse s)) = map rehydrate_item items"
  proof (intro impI, elim conjE)
    assume a: "storage s = Some raw" "raw \<noteq> []" "parse raw = Some (JArr items)"
      "JNull \<notin> set items" "JUndefined \<notin> set items"
    with rehydrate_all_Inl_iff[of items] obtain ts where ts: "rehydrate_all items = Inr ts"
      by (cases "rehydrate_all items") auto
    with a have "todos (loadFromStorage parse s) = ts"
      by (simp add: loadFromStorage_def try_rehydrate_def)
    with rehydrate_all_Inr[OF ts]
    show "map Inr (todos (loadFromStorage parse s)) = map rehydrate_item items" by simp
  qed
  have 6: "storage (loadFromStorage parse s) = storage s"
    by (simp add: loadFromStorage_def split: option.splits sum.splits)
  from 1 2 3 4 5 6 show ?thesis by blast
qed

theorem load_cases_witness:
  \<open>todos (loadFromStorage json_parse abc_store) = [] \<and>
   todos (loadFromStorage json_parse (abc_store\<lparr>storage := Some []\<rparr>)) = [] \<and>
   todos (loadFromStorage json_parse (abc_store\<lparr>storage := Some ''garbage''\<rparr>)) = [] \<and>
   todos (loadFromStorage json_parse (abc_store\<lparr>storage := Some ''{"id":"a"}''\<rparr>)) = [] \<and>
   todos (loadFromStorage json_parse (abc_store\<lparr>storage := Some ''[{"id":"a"},null]''\<rparr>)) = [] \<and>
   todos (loadFromStorage json_parse (abc_store\<lparr>storage := Some ''[{"id":"a"},true]''\<rparr>)) =
     [\<lparr>id_of = JStr ''a'', text_of = JUndefined, completed = JBool False\<rparr>,
      \<lparr>id_of = JUndefined, text_of = JUndefined, completed = JBool False\<rparr>]\<close>
proof -
  have p1: \<open>json_parse ''garbage'' = None\<close>
    and p2: \<open>json_parse ''{"id":"a"}'' = Some (JObj [(''id'', JStr ''a'')])\<close>
    and p3: \<open>json_parse ''[{"id":"a"},null]'' = Some (JArr [JObj [(''id'', JStr ''a'')], JNull])\<close>
    and p4: \<open>json_parse ''[{"id":"a"},true]'' = Some (JArr [JObj [(''id'', JStr ''a'')], JBool True])\<close>
    by (simp_all add: codec_simps)
  have s0: "storage abc_store = None" by (simp add: abc_store_def)
  have 1: "todos (loadFromStorage json_parse abc_store) = []"
    using load_cases[of abc_store json_parse "[]" JNull "[]"] s0 by simp
  have 2: "todos (loadFromStorage json_parse (abc_store\<lparr>storage := Some []\<rparr>)) = []"
    using load_cases[of "abc_store\<lparr>storage := Some []\<rparr>" json_parse "[]" JNull "[]"] by simp
  have 3: \<open>todos (loadFromStorage json_parse (abc_store\<lparr>storage := Some ''garbage''\<rparr>)) = []\<close>
    using load_cases[of "abc_store\<lparr>storage := Some ''garbage''\<rparr>" json_parse "''garbage''"
        JNull "[]"] p1
    by simp
  have 4: \<open>todos (loadFromStorage json_parse (abc_store\<lparr>storage := Some ''{"id":"a"}''\<rparr>)) = []\<close>
    using load_cases[of \<open>abc_store\<lparr>storage := Some ''{"id":"a"}''\<rparr>\<close> json_parse
        \<open>''{"id":"a"}''\<close> \<open>JObj [(''id'', JStr ''a'')]\<close> "[]"] p2
    by simp
  have 5: \<open>todos (loadFromStorage json_parse
              (abc_store\<lparr>storage := Some ''[{"id":"a"},null]''\<rparr>)) = []\<close>
    using load_cases[of \<open>abc_store\<lparr>storage := Some ''[{"id":"a"},null]''\<rparr>\<close> json_parse
        \<open>''[{"id":"a"},null]''\<close> JNull \<open>[JObj [(''id'', JStr ''a'')], JNull]\<close>] p3
    by simp
  have 6: \<open>todos (loadFromStorage json_parse
              (abc_store\<lparr>storage := Some ''[{"id":"a"},true]''\<rparr>)) =
     [\<lparr>id_of = JStr ''a'', text_of = JUndefined, completed = JBool False\<rparr>,
      \<lparr>id_of = JUndefined, text_of = JUndefined, completed = JBool False\<rparr>]\<close>
    using load_cases[of \<open>abc_store\<lparr>storage := Some ''[{"id":"a"},true]''\<rparr>\<close> json_parse
        \<open>''[{"id":"a"},true]''\<close> JNull \<open>[JObj [(''id'', JStr ''a'')], JBool True]\<close>] p4
    by (auto simp: rehydrate_item_def Todo_def map_eq_Cons_conv)
  from 1 2 3 4 5 6 show ?thesis by blast
qed

subsection \<open>Unknown ids\<close>

text \<open>
  Claim C7. For an id that does not occur in the array, \<^verbatim>\<open>editTodo\<close>, \<^verbatim>\<open>toggleTodo\<close>,
  \<^verbatim>\<open>deleteTodo\<close> and \<^verbatim>\<open>reorderTodos\<close> with that id on either side return the store
  they were given (array and slot), and so does \<^verbatim>\<open>reorderTodos(x, x)\<close> for every \<open>x\<close>.
  None of these operations has a throwing path: each is a total function into stores.
\<close>

theorem missing_id_noop:
  assumes "i \<notin> id_of ` set (todos s)"
  shows "editTodo stringify i newText s = s \<and>
         toggleTodo stringify i s = s \<and>
         deleteTodo stringify i s = s \<and>
         reorderTodos stringify i other s = s \<and>
         reorderTodos stringify other i s = s \<and>
         reorderTodos stringify x x s = s"
proof -
  from assms have none: "findIndex (\<lambda>t. id_of t = i) (todos s) = None"
    by (auto simp: findIndex_None_iff)
  then have none': "find (\<lambda>t. id_of t = i) (todos s) = None"
    by (simp add: find_None_findIndex)
  have "editTodo stringify i newText s = s" using none' by (simp add: editTodo_def)
  moreover have "toggleTodo stringify i s = s" using none' by (simp add: toggleTodo_def)
  moreover have "deleteTodo stringify i s = s" using none by (simp add: deleteTodo_def)
  moreover have "reorderTodos stringify i other s = s" using none by (simp add: reorderTodos_def)
  moreover have "reorderTodos stringify other i s = s"
    using none by (simp add: reorderTodos_def split: option.splits)
  moreover have "reorderTodos stringify x x s = s" by (simp add: reorderTodos_def)
  ultimately show ?thesis by blast
qed

theorem missing_id_noop_witness:
  "editTodo json_stringify (JStr ''z'') (JStr ''x'') abc_store = abc_store \<and>
   toggleTodo json_stringify (JStr ''z'') abc_store = abc_store \<and>
   deleteTodo json_stringify (JStr ''z'') abc_store = abc_store \<and>
   reorderTodos json_stringify (JStr ''z'') (JStr ''a'') abc_store = abc_store \<and>
   reorderTodos json_stringify (JStr ''a'') (JStr ''z'') abc_store = abc_store \<and>
   reorderTodos json_stringify (JStr ''a'') (JStr ''a'') abc_store = abc_store"
proof -
  have "JStr ''z'' \<notin> id_of ` set (todos abc_store)"
    by (simp add: abc_todos)
  then show ?thesis by (rule missing_id_noop)
qed

subsection \<open>Adding\<close>

text \<open>
  Claim C8. The claim that \<^verbatim>\<open>addTodo\<close> enforces a non-empty text fails: it stores the
  text it is given, and given the empty string it appends a task with the empty text.
  (The check for an empty input is in the key handler of the view.)
\<close>

theorem add_empty_text_counterexample:
  "todos (snd (addTodo json_stringify 1700000000000 ''0.4fzyo82mvyr'' (JStr []) empty_store)) =
     [\<lparr>id_of = JStr ''17000000000004fzyo'', text_of = JStr [], completed = JBool False\<rparr>]"
  by (simp add: store_simps)

text \<open>
  Claim C8, amended. \<^verbatim>\<open>addTodo(text)\<close> appends one task to the end of the array and
  returns it; its text is the given text, unchanged and unchecked, its flag is
  \<open>false\<close> and its id is the generated one.
\<close>

theorem add_keeps_given_text:
  "todos (snd (addTodo stringify now rnd txt s)) = todos s @ [fst (addTodo stringify now rnd txt s)] \<and>
   fst (addTodo stringify now rnd txt s) =
     \<lparr>id_of = new_id now rnd, text_of = txt, completed = JBool False\<rparr>"
  by (simp add: addTodo_def Todo_def Let_def)

subsection \<open>Uniqueness of ids\<close>

text \<open>
  Claim C9. The claim that the ids of any sequence of \<^verbatim>\<open>addTodo\<close> calls are pairwise
  distinct fails: the id is the clock reading followed by five characters of a random
  number, and \<^verbatim>\<open>addTodo\<close> does not compare it with the ids in the array. Two calls
  in the same millisecond whose random numbers start with the same five digits get the
  same id.
\<close>

theorem add_same_tick_counterexample:
  "map id_of (todos (addTodos json_stringify
      [(1700000000000, ''0.4fzyo82mvyr'', JStr ''buy milk''),
       (1700000000000, ''0.4fzyo9q1c7k'', JStr ''walk dog'')] empty_store)) =
     [JStr ''17000000000004fzyo'', JStr ''17000000000004fzyo''] \<and>
   \<not> distinct (map id_of (todos (addTodos json_stringify
      [(1700000000000, ''0.4fzyo82mvyr'', JStr ''buy milk''),
       (1700000000000, ''0.4fzyo9q1c7k'', JStr ''walk dog'')] empty_store)))"
  by (simp only: ids_addTodos)
    (simp add: empty_store_def new_id_def string_of_int_def string_of_nat.simps)

text \<open>
  Claim C9, amended. Starting from a store with pairwise distinct ids, a sequence of
  \<^verbatim>\<open>addTodo\<close> calls gives pairwise distinct ids provided no two calls have both the
  same clock reading and the same random suffix, the clock readings have the same number
  of digits (as all values of \<^verbatim>\<open>Date.now()\<close> from 2001 to 2286 have), and no
  generated id is already in the store.
\<close>

theorem add_ids_distinct:
  assumes "distinct (map id_of (todos s))"
    and "\<forall>(now, rnd, txt)\<in>set calls. new_id now rnd \<notin> id_of ` set (todos s)"
    and "\<forall>(now, rnd, txt)\<in>set calls. length (string_of_int now) = k"
    and "distinct (map (\<lambda>(now, rnd, txt). (now, take 5 (drop 2 rnd))) calls)"
  shows "distinct (map id_of (todos (addTodos stringify calls s)))"
proof -
  let ?g = "\<lambda>(now :: int, rnd :: string, txt :: jsval). new_id now rnd"
  let ?h = "\<lambda>(now :: int, rnd :: string, txt :: jsval). (now, take 5 (drop 2 rnd))"
  from assms(4) have dc: "distinct calls" and ih: "inj_on ?h (set calls)"
    by (simp_all add: distinct_map)
  have "inj_on ?g (set calls)"
  proof (rule inj_onI)
    fix c1 c2
    assume m: "c1 \<in> set calls" "c2 \<in> set calls" and eq: "?g c1 = ?g c2"
    obtain n1 r1 t1 where c1: "c1 = (n1, r1, t1)" by (cases c1) auto
    obtain n2 r2 t2 where c2: "c2 = (n2, r2, t2)" by (cases c2) auto
    from assms(3) m c1 c2 have "length (string_of_int n1) = k" "length (string_of_int n2) = k"
      by fastforce+
    then have "length (string_of_int n1) = length (string_of_int n2)" by simp
    from new_id_eq_iff[OF this, of r1 r2] eq c1 c2 have "?h c1 = ?h c2" by simp
    from inj_onD[OF ih this m] show "c1 = c2" .
  qed
  with dc have "distinct (map ?g calls)" by (simp add: distinct_map)
  moreover have "id_of ` set (todos s) \<inter> ?g ` set calls = {}"
  proof (rule ccontr)
    assume "id_of ` set (todos s) \<inter> ?g ` set calls \<noteq> {}"
    then obtain x where x: "x \<in> id_of ` set (todos s)" "x \<in> ?g ` set calls"
      by blast
    from x(2) obtain c where c: "c \<in> set calls" "x = ?g c" by blast
    obtain n r t where nrt: "c = (n, r, t)" by (cases c) auto
    from assms(2) c(1) have "case c of (now, rnd, txt) \<Rightarrow> new_id now rnd \<notin> id_of ` set (todos s)"
      by (rule bspec)
    with nrt c(2) x(1) show False by simp
  qed
  ultimately show ?thesis using assms(1)
    by (simp only: ids_addTodos distinct_append set_map)
qed

theorem add_ids_distinct_witness:
  "distinct (map id_of (todos (addTodos json_stringify
      [(1700000000000, ''0.4fzyo82mvyr'', JStr ''buy milk''),
       (1700000000000, ''0.k3x9q07hd2'', JStr ''walk dog''),
       (1700000000001, ''0.k3x9q07hd2'', JStr ''call mum'')] abc_store)))"
proof -
  let ?calls = "[(1700000000000, ''0.4fzyo82mvyr'', JStr ''buy milk''),
       (1700000000000, ''0.k3x9q07hd2'', JStr ''walk dog''),
       (1700000000001 :: int, ''0.k3x9q07hd2'', JStr ''call mum'')]"
  have 1: "distinct (map id_of (todos abc_store))"
    by (simp add: abc_todos)
  have 2: "\<forall>(now, rnd, txt)\<in>set ?calls. new_id now rnd \<notin> id_of ` set (todos abc_store)"
    by (simp add: abc_todos new_id_def string_of_int_def string_of_nat.simps)
  have 3: "\<forall>(now, rnd, txt)\<in>set ?calls. length (string_of_int now) = 13"
    by (simp add: string_of_int_def string_of_nat.simps)
  have 4: "distinct (map (\<lambda>(now, rnd, txt). (now, take 5 (drop 2 rnd))) ?calls)"
    by simp
  from add_ids_distinct[OF 1 2 3 4] show ?thesis .
qed

subsection \<open>Dragging a task onto its successor\<close>

text \<open>
  Claim C10. When the task that \<open>draggedId\<close> denotes stands immediately before the task
  that \<open>targetId\<close> denotes, \<^verbatim>\<open>reorderTodos(draggedId, targetId)\<close> leaves the array as
  it was.
\<close>

theorem reorder_onto_successor_noop:
  assumes "findIndex (\<lambda>x. id_of x = draggedId) (todos s) = Some i"
    and "findIndex (\<lambda>x. id_of x = targetId) (todos s) = Some (Suc i)"
  shows "todos (reorderTodos stringify draggedId targetId s) = todos s"
proof -
  note D = findIndex_SomeD[OF assms(1)] and T = findIndex_SomeD[OF assms(2)]
  from D T have ne: "draggedId \<noteq> targetId" by auto
  from D have "splice_in i (todos s ! i) (splice_out i (todos s)) = todos s"
    by (simp add: splice_in_out_same)
  then show ?thesis
    using reorderTodos_found[OF ne assms] by simp
qed

theorem reorder_onto_successor_noop_witness:
  "todos (reorderTodos json_stringify (JStr ''b'') (JStr ''c'') abc_store) = todos abc_store"
proof -
  have "findIndex (\<lambda>x. id_of x = JStr ''b'') (todos abc_store) = Some 1"
    and "findIndex (\<lambda>x. id_of x = JStr ''c'') (todos abc_store) = Some (Suc 1)"
    by (simp_all add: abc_todos)
  then show ?thesis by (rule reorder_onto_successor_noop)
qed

end
